theory Spec2Isabelle
  imports Main "HOL-Library.Log_Nat"
begin

section \<open>The JavaScript values the storefront script computes with\<close>

subsection \<open>Numbers\<close>

text \<open>
  Every JavaScript number is an IEEE 754 binary64 value. A finite one is modelled by the
  rational it denotes, so that rounding is explicit: \<open>to_number\<close> is the "Number value
  for x" of the language specification (round to nearest, ties to even, overflow to an
  infinity). The two zeros are identified: the script never divides, and \<open>toFixed\<close>,
  \<open>JSON.stringify\<close> and the comparisons print and treat \<open>-0\<close> as \<open>0\<close>.
\<close>

datatype number = Fin rat | PInf | NInf | NaN

text \<open>\<open>bpow b e\<close> is \<open>b\<close> to the integer power \<open>e\<close>, as a rational.\<close>

definition bpow :: "nat \<Rightarrow> int \<Rightarrow> rat" where
  "bpow b e = of_nat b powi e"

definition pow2 :: "int \<Rightarrow> rat" where
  "pow2 e = bpow 2 e"

definition pow10 :: "int \<Rightarrow> rat" where
  "pow10 e = bpow 10 e"

text \<open>
  \<open>ilog b x\<close> is the integer \<open>e\<close> with \<open>b ^ e \<le> x < b ^ (e + 1)\<close>, for \<open>x > 0\<close>: the
  digit counts of numerator and denominator give it up to one, a comparison decides.
\<close>

definition ilog :: "nat \<Rightarrow> rat \<Rightarrow> int" where
  "ilog b x =
     (let (p, q) = quotient_of x;
          d = int (floorlog b (nat p)) - int (floorlog b (nat q))
      in if bpow b d \<le> x then d else d - 1)"

definition ilog2 :: "rat \<Rightarrow> int" where
  "ilog2 x = ilog 2 x"

definition ilog10 :: "rat \<Rightarrow> int" where
  "ilog10 x = ilog 10 x"

definition round_half_even :: "rat \<Rightarrow> int" where
  "round_half_even y =
     (let f = \<lfloor>y\<rfloor>; d = y - of_int f
      in if d < 1 / 2 then f
         else if 1 / 2 < d then f + 1
         else if even f then f else f + 1)"

definition ulp_exp :: "rat \<Rightarrow> int" where
  "ulp_exp x = max (ilog2 x) (- 1022) - 52"

definition rnd_pos :: "rat \<Rightarrow> rat" where
  "rnd_pos x = of_int (round_half_even (x / pow2 (ulp_exp x))) * pow2 (ulp_exp x)"

definition to_number :: "rat \<Rightarrow> number" where
  "to_number x =
     (if x = 0 then Fin 0
      else if 0 < x then (let r = rnd_pos x in if pow2 1024 \<le> r then PInf else Fin r)
      else (let r = rnd_pos (- x) in if pow2 1024 \<le> r then NInf else Fin (- r)))"

definition is_double :: "rat \<Rightarrow> bool" where
  "is_double x = (to_number x = Fin x)"

fun fadd :: "number \<Rightarrow> number \<Rightarrow> number" where
  "fadd (Fin a) (Fin b) = to_number (a + b)"
| "fadd NaN _ = NaN"
| "fadd _ NaN = NaN"
| "fadd PInf NInf = NaN"
| "fadd NInf PInf = NaN"
| "fadd PInf _ = PInf"
| "fadd _ PInf = PInf"
| "fadd NInf _ = NInf"
| "fadd _ NInf = NInf"

fun fmul :: "number \<Rightarrow> number \<Rightarrow> number" where
  "fmul (Fin a) (Fin b) = to_number (a * b)"
| "fmul NaN _ = NaN"
| "fmul _ NaN = NaN"
| "fmul PInf (Fin b) = (if b = 0 then NaN else if 0 < b then PInf else NInf)"
| "fmul NInf (Fin b) = (if b = 0 then NaN else if 0 < b then NInf else PInf)"
| "fmul (Fin a) PInf = (if a = 0 then NaN else if 0 < a then PInf else NInf)"
| "fmul (Fin a) NInf = (if a = 0 then NaN else if 0 < a then NInf else PInf)"
| "fmul PInf PInf = PInf"
| "fmul NInf NInf = PInf"
| "fmul PInf NInf = NInf"
| "fmul NInf PInf = NInf"

text \<open>\<open>a > b\<close> on numbers: false as soon as one side is \<open>NaN\<close>.\<close>

fun js_gt :: "number \<Rightarrow> number \<Rightarrow> bool" where
  "js_gt (Fin a) (Fin b) = (b < a)"
| "js_gt NaN _ = False"
| "js_gt _ NaN = False"
| "js_gt PInf PInf = False"
| "js_gt PInf _ = True"
| "js_gt NInf _ = False"
| "js_gt (Fin a) NInf = True"
| "js_gt (Fin a) PInf = False"

text \<open>\<open>a >= b\<close> on numbers.\<close>

fun js_ge :: "number \<Rightarrow> number \<Rightarrow> bool" where
  "js_ge (Fin a) (Fin b) = (b \<le> a)"
| "js_ge NaN _ = False"
| "js_ge _ NaN = False"
| "js_ge PInf _ = True"
| "js_ge NInf NInf = True"
| "js_ge NInf _ = False"
| "js_ge (Fin a) NInf = True"
| "js_ge (Fin a) PInf = False"

text \<open>The postfix operators \<open>x++\<close> and \<open>x--\<close> store \<open>x + 1\<close> and \<open>x - 1\<close>.\<close>

definition js_inc :: "number \<Rightarrow> number" where
  "js_inc x = fadd x (Fin 1)"

definition js_dec :: "number \<Rightarrow> number" where
  "js_dec x = fadd x (Fin (- 1))"

subsection \<open>Strings\<close>

text \<open>
  A JavaScript string is a sequence of UTF-16 code units; a code unit is modelled by its
  number. \<open>js\<close> embeds a literal of the script.
\<close>

type_synonym code_unit = nat
type_synonym jsstring = "code_unit list"

definition js :: "string \<Rightarrow> jsstring" where
  "js s = map of_char s"

definition starts_with :: "jsstring \<Rightarrow> jsstring \<Rightarrow> bool" where
  "starts_with p s = (take (length p) s = p)"

definition is_digit :: "code_unit \<Rightarrow> bool" where
  "is_digit c = (48 \<le> c \<and> c \<le> 57)"

definition digit_char :: "nat \<Rightarrow> code_unit" where
  "digit_char d = 48 + d"

text \<open>The value of a run of decimal digits, most significant first.\<close>

definition digits_val :: "jsstring \<Rightarrow> nat" where
  "digits_val ds = foldl (\<lambda>a c. 10 * a + (c - 48)) 0 ds"

text \<open>The decimal digits of a natural number, without leading zeros (\<open>0\<close> is "0").\<close>

fun dec_digits :: "nat \<Rightarrow> jsstring" where
  "dec_digits n = (if n < 10 then [digit_char n] else dec_digits (n div 10) @ [digit_char (n mod 10)])"

subsection \<open>Number to string\<close>

text \<open>
  \<open>Number::toString\<close> prints the shortest decimal \<open>s * 10 ^ (n - k)\<close>, \<open>s\<close> of \<open>k\<close> digits,
  whose Number value is the number printed; among several \<open>s\<close> the closest, then the even
  one. For \<open>k\<close> digits the two candidates are the neighbours of \<open>x\<close> on the grid of step
  \<open>10 ^ (n0 - k)\<close>, where \<open>10 ^ (n0 - 1) \<le> x < 10 ^ n0\<close>; seventeen digits always suffice
  for a binary64 value, and there the closest candidate is taken.
\<close>

definition nearest :: "rat \<Rightarrow> rat \<Rightarrow> nat" where
  "nearest x u =
     (let lo = nat \<lfloor>x / u\<rfloor>;
          hi = lo + 1;
          dl = x - of_nat lo * u;
          dh = of_nat hi * u - x
      in if dl < dh then lo else if dh < dl then hi else if even lo then lo else hi)"

definition candidate :: "rat \<Rightarrow> int \<Rightarrow> nat \<Rightarrow> nat option" where
  "candidate x n0 k =
     (let u = pow10 (n0 - int k);
          lo = nat \<lfloor>x / u\<rfloor>;
          hi = lo + 1;
          a = (to_number (of_nat lo * u) = Fin x);
          b = (to_number (of_nat hi * u) = Fin x)
      in if a \<and> b then Some (nearest x u)
         else if a then Some lo
         else if b then Some hi
         else None)"

fun shortest :: "rat \<Rightarrow> int \<Rightarrow> nat list \<Rightarrow> nat \<times> nat" where
  "shortest x n0 [] = (nearest x (pow10 (n0 - 17)), 17)"
| "shortest x n0 (k # ks) =
     (case candidate x n0 k of Some s \<Rightarrow> (s, k) | None \<Rightarrow> shortest x n0 ks)"

text \<open>
  \<open>digits_of x\<close> is the triple \<open>(s, k, n)\<close> of the specification, for a finite \<open>x > 0\<close>. A
  candidate \<open>10 ^ k\<close> is the \<open>k\<close>-digit \<open>10 ^ (k - 1)\<close> one decimal place higher.
\<close>

definition digits_of :: "rat \<Rightarrow> nat \<times> nat \<times> int" where
  "digits_of x =
     (let n0 = ilog10 x + 1;
          (s, k) = shortest x n0 [1 ..< 17]
      in if s = 10 ^ k then (10 ^ (k - 1), k, n0 + 1) else (s, k, n0))"

definition format_digits :: "nat \<times> nat \<times> int \<Rightarrow> jsstring" where
  "format_digits t =
     (case t of (s, k, n) \<Rightarrow>
        let ds = dec_digits s in
        if int k \<le> n \<and> n \<le> 21 then ds @ replicate (nat n - k) 48
        else if 0 < n \<and> n \<le> 21 then take (nat n) ds @ [46] @ drop (nat n) ds
        else if - 6 < n \<and> n \<le> 0 then [48, 46] @ replicate (nat (- n)) 48 @ ds
        else
          let e = n - 1;
              ex = [101, (if 0 \<le> e then 43 else 45)] @ dec_digits (nat \<bar>e\<bar>)
          in if k = 1 then ds @ ex else [hd ds] @ [46] @ tl ds @ ex)"

fun Number_toString :: "number \<Rightarrow> jsstring" where
  "Number_toString NaN = js ''NaN''"
| "Number_toString PInf = js ''Infinity''"
| "Number_toString NInf = js ''-Infinity''"
| "Number_toString (Fin x) =
     (if x = 0 then js ''0''
      else if x < 0 then [45] @ format_digits (digits_of (- x))
      else format_digits (digits_of x))"

text \<open>
  \<open>Number.prototype.toFixed(f)\<close>: the integer \<open>n\<close> with \<open>n / 10 ^ f\<close> closest to \<open>x\<close> (the
  larger one on a tie), printed with \<open>f\<close> digits after the point; \<open>Number::toString\<close> for a
  value that is not finite or is at least \<open>10 ^ 21\<close>.
\<close>

definition fixed_digits :: "nat \<Rightarrow> rat \<Rightarrow> jsstring" where
  "fixed_digits f x =
     (let n = nat \<lfloor>x * 10 ^ f + 1 / 2\<rfloor>;
          m = dec_digits n;
          m' = (if f = 0 then m
                else let z = replicate (f + 1 - length m) 48 @ m;
                         a = take (length z - f) z;
                         b = drop (length z - f) z
                     in a @ [46] @ b)
      in m')"

fun toFixed :: "nat \<Rightarrow> number \<Rightarrow> jsstring" where
  "toFixed f (Fin x) =
     (if x < 0 then
        (if 10 ^ 21 \<le> - x then Number_toString (Fin x) else [45] @ fixed_digits f (- x))
      else
        (if 10 ^ 21 \<le> x then Number_toString (Fin x) else fixed_digits f x))"
| "toFixed f y = Number_toString y"

subsection \<open>String to number\<close>

text \<open>The white space \<open>parseFloat\<close> skips: \<open>WhiteSpace\<close> and \<open>LineTerminator\<close>.\<close>

definition is_str_ws :: "code_unit \<Rightarrow> bool" where
  "is_str_ws c =
     (c \<in> {9, 10, 11, 12, 13, 32, 160, 5760, 8232, 8233, 8239, 8287, 12288, 65279}
      \<or> (8192 \<le> c \<and> c \<le> 8202))"

text \<open>
  The exponent part \<open>e\<close>, sign, digits at the head of a string: its value and the rest, or
  nothing when the head is no complete exponent part.
\<close>

definition exponent_part :: "jsstring \<Rightarrow> (int \<times> jsstring) option" where
  "exponent_part t =
     (case t of
        [] \<Rightarrow> None
      | c # r \<Rightarrow>
          if c = 101 \<or> c = 69 then
            (let (neg, r') =
                   (case r of
                      [] \<Rightarrow> (False, r)
                    | d # r2 \<Rightarrow> if d = 45 then (True, r2) else if d = 43 then (False, r2) else (False, r));
                 ds = takeWhile is_digit r'
             in if ds = [] then None
                else Some ((if neg then - int (digits_val ds) else int (digits_val ds)),
                           dropWhile is_digit r'))
          else None)"

text \<open>The mathematical value of digits \<open>ip.fp\<close> times ten to the \<open>ex\<close>.\<close>

definition decimal_value :: "jsstring \<Rightarrow> jsstring \<Rightarrow> int \<Rightarrow> rat" where
  "decimal_value ip fp ex = of_nat (digits_val (ip @ fp)) * pow10 (ex - int (length fp))"

definition signed_number :: "bool \<Rightarrow> rat \<Rightarrow> number" where
  "signed_number neg v = to_number (if neg then - v else v)"

text \<open>
  \<open>parseFloat\<close>: the longest prefix, after white space, that is a decimal literal; \<open>NaN\<close>
  when there is none.
\<close>

definition parseFloat :: "jsstring \<Rightarrow> number" where
  "parseFloat inputString =
     (let t = dropWhile is_str_ws inputString;
          (neg, t1) =
            (case t of
               [] \<Rightarrow> (False, t)
             | c # r \<Rightarrow> if c = 45 then (True, r) else if c = 43 then (False, r) else (False, t))
      in if starts_with (js ''Infinity'') t1 then (if neg then NInf else PInf)
         else
           let ip = takeWhile is_digit t1;
               t2 = dropWhile is_digit t1;
               (fp, t3) =
                 (case t2 of
                    [] \<Rightarrow> ([], t2)
                  | c # r \<Rightarrow>
                      if c = 46 then (takeWhile is_digit r, dropWhile is_digit r) else ([], t2))
           in if ip = [] \<and> fp = [] then NaN
              else
                (case exponent_part t3 of
                   None \<Rightarrow> signed_number neg (decimal_value ip fp 0)
                 | Some (ex, _) \<Rightarrow> signed_number neg (decimal_value ip fp ex)))"

subsection \<open>Values and JSON text\<close>

text \<open>
  The values JSON text denotes. An object is the list of its properties in property
  order: array-index keys first in ascending order, then the other keys in the order of
  their creation.
\<close>

datatype jsval =
    JNull
  | JBool bool
  | JNum number
  | JStr jsstring
  | JArr "jsval list"
  | JObj "(jsstring \<times> jsval) list"

text \<open>\<open>ToBoolean\<close>, as the operator \<open>||\<close> applies it.\<close>

fun ToBoolean :: "jsval \<Rightarrow> bool" where
  "ToBoolean JNull = False"
| "ToBoolean (JBool b) = b"
| "ToBoolean (JNum x) = (x \<noteq> Fin 0 \<and> x \<noteq> NaN)"
| "ToBoolean (JStr s) = (s \<noteq> [])"
| "ToBoolean (JArr _) = True"
| "ToBoolean (JObj _) = True"

definition hex_char :: "nat \<Rightarrow> code_unit" where
  "hex_char d = (if d < 10 then 48 + d else 87 + d)"

definition unicode_escape :: "code_unit \<Rightarrow> jsstring" where
  "unicode_escape c =
     [92, 117, hex_char (c div 4096 mod 16), hex_char (c div 256 mod 16),
      hex_char (c div 16 mod 16), hex_char (c mod 16)]"

definition is_high_surrogate :: "code_unit \<Rightarrow> bool" where
  "is_high_surrogate c = (55296 \<le> c \<and> c \<le> 56319)"

definition is_low_surrogate :: "code_unit \<Rightarrow> bool" where
  "is_low_surrogate c = (56320 \<le> c \<and> c \<le> 57343)"

text \<open>One code unit that is not half of a surrogate pair, as \<open>QuoteJSONString\<close> writes it.\<close>

definition quote_unit :: "code_unit \<Rightarrow> jsstring" where
  "quote_unit c =
     (if c = 8 then [92, 98]
      else if c = 9 then [92, 116]
      else if c = 10 then [92, 110]
      else if c = 12 then [92, 102]
      else if c = 13 then [92, 114]
      else if c = 34 then [92, 34]
      else if c = 92 then [92, 92]
      else if c < 32 \<or> is_high_surrogate c \<or> is_low_surrogate c then unicode_escape c
      else [c])"

fun quote_units :: "jsstring \<Rightarrow> jsstring" where
  "quote_units [] = []"
| "quote_units [c] = quote_unit c"
| "quote_units (c # d # cs) =
     (if is_high_surrogate c \<and> is_low_surrogate d then c # d # quote_units cs
      else quote_unit c @ quote_units (d # cs))"

definition QuoteJSONString :: "jsstring \<Rightarrow> jsstring" where
  "QuoteJSONString s = [34] @ quote_units s @ [34]"

fun join_with :: "jsstring \<Rightarrow> jsstring list \<Rightarrow> jsstring" where
  "join_with sep [] = []"
| "join_with sep [x] = x"
| "join_with sep (x # y # ys) = x @ sep @ join_with sep (y # ys)"

text \<open>\<open>JSON.stringify\<close> without replacer and indentation.\<close>

fun JSON_stringify :: "jsval \<Rightarrow> jsstring" where
  "JSON_stringify JNull = js ''null''"
| "JSON_stringify (JBool b) = (if b then js ''true'' else js ''false'')"
| "JSON_stringify (JNum x) = (case x of Fin _ \<Rightarrow> Number_toString x | _ \<Rightarrow> js ''null'')"
| "JSON_stringify (JStr s) = QuoteJSONString s"
| "JSON_stringify (JArr vs) = [91] @ join_with [44] (map JSON_stringify vs) @ [93]"
| "JSON_stringify (JObj ps) =
     [123] @ join_with [44] (map (\<lambda>(k, v). QuoteJSONString k @ [58] @ JSON_stringify v) ps) @ [125]"

datatype error = SyntaxError | Exhausted

definition is_json_ws :: "code_unit \<Rightarrow> bool" where
  "is_json_ws c = (c = 9 \<or> c = 10 \<or> c = 13 \<or> c = 32)"

definition skip_ws :: "jsstring \<Rightarrow> jsstring" where
  "skip_ws s = dropWhile is_json_ws s"

definition hex_val :: "code_unit \<Rightarrow> nat option" where
  "hex_val c =
     (if 48 \<le> c \<and> c \<le> 57 then Some (c - 48)
      else if 97 \<le> c \<and> c \<le> 102 then Some (c - 87)
      else if 65 \<le> c \<and> c \<le> 70 then Some (c - 55)
      else None)"

text \<open>The code unit an escape sequence denotes, after the backslash, and the rest.\<close>

definition parse_escape :: "jsstring \<Rightarrow> (code_unit \<times> jsstring) option" where
  "parse_escape s =
     (case s of
        [] \<Rightarrow> None
      | e # r \<Rightarrow>
          if e = 34 \<or> e = 92 \<or> e = 47 then Some (e, r)
          else if e = 98 then Some (8, r)
          else if e = 102 then Some (12, r)
          else if e = 110 then Some (10, r)
          else if e = 114 then Some (13, r)
          else if e = 116 then Some (9, r)
          else if e = 117 then
            (case r of
               h1 # h2 # h3 # h4 # r' \<Rightarrow>
                 (case (hex_val h1, hex_val h2, hex_val h3, hex_val h4) of
                    (Some a, Some b, Some c, Some d) \<Rightarrow>
                      Some (4096 * a + 256 * b + 16 * c + d, r')
                  | _ \<Rightarrow> None)
             | _ \<Rightarrow> None)
          else None)"

text \<open>
  The characters of a JSON string after its opening quote, up to the closing quote: the
  string denoted and the rest of the text. The first argument bounds the number of
  characters read; the length of the text is enough.
\<close>

fun parse_chars :: "nat \<Rightarrow> jsstring \<Rightarrow> (jsstring \<times> jsstring) option" where
  "parse_chars 0 s = None"
| "parse_chars (Suc n) [] = None"
| "parse_chars (Suc n) (c # cs) =
     (if c = 34 then Some ([], cs)
      else if c = 92 then
        (case parse_escape cs of
           None \<Rightarrow> None
         | Some (u, r) \<Rightarrow>
             (case parse_chars n r of None \<Rightarrow> None | Some (t, r') \<Rightarrow> Some (u # t, r')))
      else if c < 32 then None
      else (case parse_chars n cs of None \<Rightarrow> None | Some (t, r') \<Rightarrow> Some (c # t, r')))"

definition parse_string :: "jsstring \<Rightarrow> (jsstring \<times> jsstring) option" where
  "parse_string s = parse_chars (length s) s"

text \<open>
  A JSON number at the head of the text: an optional minus, \<open>0\<close> or digits without a
  leading zero, an optional fraction, an optional exponent. Its value is the Number value
  of the decimal it writes.
\<close>

definition parse_unsigned :: "bool \<Rightarrow> jsstring \<Rightarrow> (number \<times> jsstring) option" where
  "parse_unsigned neg t1 =
     (let ip = (case t1 of [] \<Rightarrow> [] | c # r \<Rightarrow> if c = 48 then [48] else takeWhile is_digit t1);
          t2 = drop (length ip) t1
      in if ip = [] then None
         else
           (case (case t2 of
                    [] \<Rightarrow> Some ([], t2)
                  | c # r \<Rightarrow>
                      if c = 46 then
                        (if takeWhile is_digit r = [] then None
                         else Some (takeWhile is_digit r, dropWhile is_digit r))
                      else Some ([], t2)) of
              None \<Rightarrow> None
            | Some (fp, t3) \<Rightarrow>
                (case t3 of
                   [] \<Rightarrow> Some (signed_number neg (decimal_value ip fp 0), t3)
                 | c # r \<Rightarrow>
                     if c = 101 \<or> c = 69 then
                       (case exponent_part t3 of
                          None \<Rightarrow> None
                        | Some (ex, t4) \<Rightarrow> Some (signed_number neg (decimal_value ip fp ex), t4))
                     else Some (signed_number neg (decimal_value ip fp 0), t3))))"

definition parse_number :: "jsstring \<Rightarrow> (number \<times> jsstring) option" where
  "parse_number s =
     (case s of
        [] \<Rightarrow> None
      | c # r \<Rightarrow> if c = 45 then parse_unsigned True r else parse_unsigned False s)"

text \<open>A key is an array index when it is the canonical decimal of a number below \<open>2^32 - 1\<close>.\<close>

definition array_index :: "jsstring \<Rightarrow> nat option" where
  "array_index k =
     (if k \<noteq> [] \<and> list_all is_digit k \<and> dec_digits (digits_val k) = k \<and> digits_val k < 4294967295
      then Some (digits_val k) else None)"

text \<open>
  \<open>CreateDataProperty\<close> on an ordinary object: an existing key keeps its place and takes
  the new value; a new array index goes among the array indices, in ascending order; any
  other new key goes last.
\<close>

fun insert_index :: "nat \<Rightarrow> jsstring \<Rightarrow> jsval \<Rightarrow> (jsstring \<times> jsval) list \<Rightarrow> (jsstring \<times> jsval) list" where
  "insert_index i k v [] = [(k, v)]"
| "insert_index i k v ((k', v') # ps) =
     (case array_index k' of
        None \<Rightarrow> (k, v) # (k', v') # ps
      | Some j \<Rightarrow> if i < j then (k, v) # (k', v') # ps else (k', v') # insert_index i k v ps)"

definition put_property :: "jsstring \<Rightarrow> jsval \<Rightarrow> (jsstring \<times> jsval) list \<Rightarrow> (jsstring \<times> jsval) list" where
  "put_property k v ps =
     (if k \<in> set (map fst ps) then map (\<lambda>(k', v'). if k' = k then (k', v) else (k', v')) ps
      else (case array_index k of None \<Rightarrow> ps @ [(k, v)] | Some i \<Rightarrow> insert_index i k v ps))"

text \<open>
  The JSON grammar, by recursive descent. Each function takes the text with leading white
  space already skipped where the grammar allows it, and returns the value and the rest of
  the text. The first argument bounds the depth of the recursion; \<open>JSON_parse\<close> starts it
  at more than twice the length of the text, which no text exhausts.
\<close>

fun parse_value :: "nat \<Rightarrow> jsstring \<Rightarrow> error + (jsval \<times> jsstring)"
  and parse_elements :: "nat \<Rightarrow> jsval list \<Rightarrow> jsstring \<Rightarrow> error + (jsval \<times> jsstring)"
  and parse_members :: "nat \<Rightarrow> (jsstring \<times> jsval) list \<Rightarrow> jsstring \<Rightarrow> error + (jsval \<times> jsstring)"
where
  "parse_value 0 s = Inl Exhausted"
| "parse_value (Suc n) s =
     (case s of
        [] \<Rightarrow> Inl SyntaxError
      | c # r \<Rightarrow>
          if c = 123 then
            (case skip_ws r of
               [] \<Rightarrow> Inl SyntaxError
             | d # r' \<Rightarrow> if d = 125 then Inr (JObj [], r') else parse_members n [] (d # r'))
          else if c = 91 then
            (case skip_ws r of
               [] \<Rightarrow> Inl SyntaxError
             | d # r' \<Rightarrow> if d = 93 then Inr (JArr [], r') else parse_elements n [] (d # r'))
          else if c = 34 then
            (case parse_string r of None \<Rightarrow> Inl SyntaxError | Some (t, r') \<Rightarrow> Inr (JStr t, r'))
          else if c = 45 \<or> is_digit c then
            (case parse_number s of None \<Rightarrow> Inl SyntaxError | Some (x, r') \<Rightarrow> Inr (JNum x, r'))
          else if starts_with (js ''null'') s then Inr (JNull, drop 4 s)
          else if starts_with (js ''true'') s then Inr (JBool True, drop 4 s)
          else if starts_with (js ''false'') s then Inr (JBool False, drop 5 s)
          else Inl SyntaxError)"
| "parse_elements 0 acc s = Inl Exhausted"
| "parse_elements (Suc n) acc s =
     (case parse_value n s of
        Inl e \<Rightarrow> Inl e
      | Inr (v, r) \<Rightarrow>
          (case skip_ws r of
             [] \<Rightarrow> Inl SyntaxError
           | c # r' \<Rightarrow>
               if c = 93 then Inr (JArr (acc @ [v]), r')
               else if c = 44 then parse_elements n (acc @ [v]) (skip_ws r')
               else Inl SyntaxError))"
| "parse_members 0 acc s = Inl Exhausted"
| "parse_members (Suc n) acc s =
     (case s of
        [] \<Rightarrow> Inl SyntaxError
      | q # r0 \<Rightarrow>
          if q \<noteq> 34 then Inl SyntaxError
          else
            (case parse_string r0 of
               None \<Rightarrow> Inl SyntaxError
             | Some (k, r1) \<Rightarrow>
                 (case skip_ws r1 of
                    [] \<Rightarrow> Inl SyntaxError
                  | c # r2 \<Rightarrow>
                      if c \<noteq> 58 then Inl SyntaxError
                      else
                        (case parse_value n (skip_ws r2) of
                           Inl e \<Rightarrow> Inl e
                         | Inr (v, r3) \<Rightarrow>
                             (case skip_ws r3 of
                                [] \<Rightarrow> Inl SyntaxError
                              | d # r4 \<Rightarrow>
                                  if d = 125 then Inr (JObj (put_property k v acc), r4)
                                  else if d = 44 then parse_members n (put_property k v acc) (skip_ws r4)
                                  else Inl SyntaxError)))))"

definition JSON_parse :: "jsstring \<Rightarrow> error + jsval" where
  "JSON_parse text =
     (case parse_value (2 * length text + 1) (skip_ws text) of
        Inl e \<Rightarrow> Inl e
      | Inr (v, r) \<Rightarrow> if skip_ws r = [] then Inr v else Inl SyntaxError)"

section \<open>The cart\<close>

text \<open>
  A line item is the object \<open>{ id, name, price, image, quantity }\<close> that \<open>addToCart\<close>
  pushes. The state of a page is the array \<open>cart\<close> and the value stored under the key
  \<open>'cart'\<close> of \<open>localStorage\<close> (\<open>None\<close> when the key is absent).
\<close>

record item =
  item_id :: jsstring
  item_name :: jsstring
  item_price :: number
  item_image :: jsstring
  item_quantity :: number

record state =
  cart :: "item list"
  stored :: "jsstring option"

text \<open>The value of a cart: an array of objects with the five properties in this order.\<close>

definition item_value :: "item \<Rightarrow> jsval" where
  "item_value it =
     JObj [(js ''id'', JStr (item_id it)),
           (js ''name'', JStr (item_name it)),
           (js ''price'', JNum (item_price it)),
           (js ''image'', JStr (item_image it)),
           (js ''quantity'', JNum (item_quantity it))]"

definition cart_value :: "item list \<Rightarrow> jsval" where
  "cart_value c = JArr (map item_value c)"

text \<open>
  \<open>saveCart\<close> writes \<open>JSON.stringify(cart)\<close> under the key. (It then refreshes the item
  count shown in the navigation bar, which changes neither the cart nor the store.)
\<close>

definition saveCart :: "state \<Rightarrow> state" where
  "saveCart s = s\<lparr>stored := Some (JSON_stringify (cart_value (cart s)))\<rparr>"

text \<open>
  The hydration \<open>JSON.parse(localStorage.getItem('cart')) || []\<close>. \<open>getItem\<close> gives
  \<open>null\<close> for an absent key, which \<open>JSON.parse\<close> converts to the text \<open>null\<close>. A
  \<open>SyntaxError\<close> that \<open>JSON.parse\<close> throws is not caught by the script.
\<close>

definition load :: "jsstring option \<Rightarrow> error + jsval" where
  "load st =
     (case JSON_parse (case st of None \<Rightarrow> js ''null'' | Some t \<Rightarrow> t) of
        Inl e \<Rightarrow> Inl e
      | Inr v \<Rightarrow> Inr (if ToBoolean v then v else JArr []))"

text \<open>\<open>Array.prototype.findIndex\<close>: the first index whose element satisfies \<open>P\<close>, else \<open>-1\<close>.\<close>

fun findIndex :: "('a \<Rightarrow> bool) \<Rightarrow> 'a list \<Rightarrow> int" where
  "findIndex P [] = - 1"
| "findIndex P (x # xs) =
     (if P x then 0 else (let i = findIndex P xs in if - 1 < i then i + 1 else - 1))"

text \<open>\<open>xs[i].quantity++\<close> and \<open>xs[i].quantity--\<close>, for an index inside the array.\<close>

definition increment_at :: "nat \<Rightarrow> item list \<Rightarrow> item list" where
  "increment_at i xs = xs[i := (xs ! i)\<lparr>item_quantity := js_inc (item_quantity (xs ! i))\<rparr>]"

definition decrement_at :: "nat \<Rightarrow> item list \<Rightarrow> item list" where
  "decrement_at i xs = xs[i := (xs ! i)\<lparr>item_quantity := js_dec (item_quantity (xs ! i))\<rparr>]"

definition addToCart :: "jsstring \<Rightarrow> jsstring \<Rightarrow> jsstring \<Rightarrow> jsstring \<Rightarrow> state \<Rightarrow> state" where
  "addToCart productId name price image' s =
     (let existingItemIndex = findIndex (\<lambda>it. item_id it = productId) (cart s)
      in saveCart
           (if - 1 < existingItemIndex
            then s\<lparr>cart := increment_at (nat existingItemIndex) (cart s)\<rparr>
            else s\<lparr>cart := cart s @
                   [\<lparr>item_id = productId, item_name = name, item_price = parseFloat price,
                     item_image = image', item_quantity = Fin 1\<rparr>]\<rparr>))"

text \<open>The click handler of a \<open>.remove-btn\<close> button whose \<open>data-id\<close> is \<open>idToRemove\<close>.\<close>

definition removeClick :: "jsstring \<Rightarrow> state \<Rightarrow> state" where
  "removeClick idToRemove s =
     saveCart (s\<lparr>cart := filter (\<lambda>it. item_id it \<noteq> idToRemove) (cart s)\<rparr>)"

text \<open>
  The click handler of a \<open>.quantity-btn\<close> button. The template of \<open>renderCart\<close> gives
  such a button the class \<open>increase\<close> or the class \<open>decrease\<close>. \<open>cart.find\<close> yields the
  first item with the id, an element of the array itself, so the update of its quantity is an
  update of the array at that index.
\<close>

datatype quantity_btn = Increase | Decrease

definition quantityClick :: "quantity_btn \<Rightarrow> jsstring \<Rightarrow> state \<Rightarrow> state" where
  "quantityClick btn idToUpdate s =
     (case List.find (\<lambda>it. item_id it = idToUpdate) (cart s) of
        None \<Rightarrow> s
      | Some found \<Rightarrow>
          saveCart
            (case btn of
               Increase \<Rightarrow>
                 s\<lparr>cart := increment_at (nat (findIndex (\<lambda>it. item_id it = idToUpdate) (cart s))) (cart s)\<rparr>
             | Decrease \<Rightarrow>
                 if js_gt (item_quantity found) (Fin 1)
                 then s\<lparr>cart := decrement_at (nat (findIndex (\<lambda>it. item_id it = idToUpdate) (cart s))) (cart s)\<rparr>
                 else s\<lparr>cart := filter (\<lambda>i. item_id i \<noteq> idToUpdate) (cart s)\<rparr>))"

text \<open>The click handler of the checkout button.\<close>

definition checkoutClick :: "state \<Rightarrow> state" where
  "checkoutClick s = (if 0 < length (cart s) then saveCart (s\<lparr>cart := []\<rparr>) else s)"

text \<open>The operations of the cart, and a run of them from a state.\<close>

datatype operation =
    Add jsstring jsstring jsstring jsstring
  | Increment jsstring
  | Decrement jsstring
  | Remove jsstring
  | Clear

fun apply_operation :: "state \<Rightarrow> operation \<Rightarrow> state" where
  "apply_operation s (Add productId name price image') = addToCart productId name price image' s"
| "apply_operation s (Increment i) = quantityClick Increase i s"
| "apply_operation s (Decrement i) = quantityClick Decrease i s"
| "apply_operation s (Remove i) = removeClick i s"
| "apply_operation s Clear = checkoutClick s"

definition run :: "operation list \<Rightarrow> state \<Rightarrow> state" where
  "run ops s = foldl apply_operation s ops"

subsection \<open>The cart page\<close>

text \<open>
  What \<open>renderCart\<close> leaves on the page: whether the empty-cart message is displayed,
  the texts of the subtotal and total elements, and whether the checkout button is
  disabled.
\<close>

record cart_view =
  empty_message_shown :: bool
  subtotal_text :: jsstring
  total_text :: jsstring
  checkout_disabled :: bool

definition SHIPPING_COST :: number where
  "SHIPPING_COST = Fin 5"

text \<open>The body of the \<open>forEach\<close> of \<open>renderCart\<close>, as far as it updates \<open>subtotal\<close>.\<close>

definition itemTotalPrice :: "item \<Rightarrow> jsstring" where
  "itemTotalPrice it = toFixed 2 (fmul (item_price it) (item_quantity it))"

definition add_item_total :: "number \<Rightarrow> item \<Rightarrow> number" where
  "add_item_total subtotal it = fadd subtotal (parseFloat (itemTotalPrice it))"

definition renderCart :: "item list \<Rightarrow> cart_view" where
  "renderCart c =
     (if length c = 0 then
        \<lparr>empty_message_shown = True, subtotal_text = js ''0.00'', total_text = js ''0.00'',
         checkout_disabled = True\<rparr>
      else
        (let subtotal = foldl add_item_total (Fin 0) c;
             total = toFixed 2 (fadd subtotal SHIPPING_COST)
         in \<lparr>empty_message_shown = False, subtotal_text = toFixed 2 subtotal, total_text = total,
             checkout_disabled = False\<rparr>))"

section \<open>The catalogue listings\<close>

text \<open>
  A record of the product search, with the three properties the listings test. A property
  that the record lacks is \<open>undefined\<close>, here \<open>None\<close>, which is falsy.
\<close>

record product =
  product_name :: "jsval option"
  image_url :: "jsval option"
  brands :: "jsval option"

definition truthy :: "jsval option \<Rightarrow> bool" where
  "truthy p = (case p of None \<Rightarrow> False | Some v \<Rightarrow> ToBoolean v)"

text \<open>\<open>xs.slice(b, e)\<close> for indices that are not negative.\<close>

definition js_slice :: "nat \<Rightarrow> nat \<Rightarrow> 'a list \<Rightarrow> 'a list" where
  "js_slice b e xs = take (min e (length xs) - b) (drop b xs)"

text \<open>The products of which \<open>fetchFeaturedProducts\<close> appends a card to the grid.\<close>

definition featured_cards :: "product list \<Rightarrow> product list" where
  "featured_cards data_products =
     (let products = filter (\<lambda>p. truthy (product_name p) \<and> truthy (image_url p) \<and> truthy (brands p))
                       data_products
      in if length products = 0 then [] else js_slice 0 4 products)"

text \<open>The products of which \<open>fetchAllProducts\<close> appends a card to the grid.\<close>

definition all_cards :: "product list \<Rightarrow> product list" where
  "all_cards data_products =
     (let products = filter (\<lambda>p. truthy (product_name p) \<and> truthy (image_url p)) data_products;
          productsToDisplay = js_slice 0 (min (length products) 20) products
      in if length productsToDisplay = 0 then [] else productsToDisplay)"

section \<open>Predicates of the statements\<close>

text \<open>
  Quantities reached by counting clicks: the integers from 1 to \<open>2^53\<close>, where \<open>x + 1\<close>
  rounds back to \<open>x\<close>.
\<close>

definition counted :: "number \<Rightarrow> bool" where
  "counted x = (\<exists>k::int. 1 \<le> k \<and> k \<le> 2 ^ 53 \<and> x = Fin (of_int k))"

text \<open>A cart with at most one line item per id, each with a counted quantity.\<close>

definition cart_ok :: "item list \<Rightarrow> bool" where
  "cart_ok c = (distinct (map item_id c) \<and> (\<forall>it \<in> set c. counted (item_quantity it)))"

text \<open>The line items of a cart with a given id.\<close>

definition line_items :: "jsstring \<Rightarrow> item list \<Rightarrow> item list" where
  "line_items i c = filter (\<lambda>it. item_id it = i) c"

text \<open>The two filters of the listings, by name.\<close>

definition admit_featured :: "product \<Rightarrow> bool" where
  "admit_featured p = (truthy (product_name p) \<and> truthy (image_url p) \<and> truthy (brands p))"

definition admit_general :: "product \<Rightarrow> bool" where
  "admit_general p = (truthy (product_name p) \<and> truthy (image_url p))"

text \<open>The stored value is the serialization of the cart in memory.\<close>

definition synced :: "state \<Rightarrow> bool" where
  "synced s = (stored s = Some (JSON_stringify (cart_value (cart s))))"

text \<open>
  The subtotal in the words of the specification: each item total \<open>price * quantity\<close>
  rounded to two decimal places (printed with two decimals and read back), then summed, in
  binary64 arithmetic from left to right.
\<close>

definition round2 :: "number \<Rightarrow> number" where
  "round2 x = parseFloat (toFixed 2 x)"

definition float_sum :: "number list \<Rightarrow> number" where
  "float_sum xs = foldl fadd (Fin 0) xs"

definition spec_subtotal :: "item list \<Rightarrow> number" where
  "spec_subtotal c = float_sum (map (\<lambda>it. round2 (fmul (item_price it) (item_quantity it))) c)"

text \<open>
  The cart of the specification's example, with the prices as \<open>addToCart\<close> parses them,
  and the binary64 values that its totals go through: the nearest to 3.33, its triple (the
  nearest to 9.99), 20 plus that, and that plus 5.
\<close>

definition example_cart :: "item list" where
  "example_cart =
     [\<lparr>item_id = js ''A'', item_name = js ''jam'', item_price = parseFloat (js ''10.00''),
       item_image = js ''j.png'', item_quantity = Fin 2\<rparr>,
      \<lparr>item_id = js ''B'', item_name = js ''tea'', item_price = parseFloat (js ''3.33''),
       item_image = js ''t.png'', item_quantity = Fin 3\<rparr>]"

definition d333 :: rat where
  "d333 = 7498493379571876 / 2 ^ 51"

definition d999 :: rat where
  "d999 = 5623870034678907 / 2 ^ 49"

definition d2999 :: rat where
  "d2999 = 8441434551552574 / 2 ^ 48"

definition d3499 :: rat where
  "d3499 = 4924404717552927 / 2 ^ 47"

text \<open>
  What may follow a value in the text \<open>JSON.stringify\<close> writes: nothing, a comma or a
  closing bracket.
\<close>

definition delimited :: "jsstring \<Rightarrow> bool" where
  "delimited r = (case r of [] \<Rightarrow> True | c # _ \<Rightarrow> c = 44 \<or> c = 93 \<or> c = 125)"

text \<open>The exponent part as \<open>Number::toString\<close> writes it.\<close>

definition exponent_text :: "int \<Rightarrow> jsstring" where
  "exponent_text e = [101, (if 0 \<le> e then 43 else 45)] @ dec_digits (nat \<bar>e\<bar>)"

text \<open>
  What \<open>JSON.parse\<close> reads back from the text of a value: the value with every number
  that is not finite replaced by \<open>null\<close>, as \<open>JSON.stringify\<close> writes it.
\<close>

fun sanitize :: "jsval \<Rightarrow> jsval" where
  "sanitize (JNum x) = (case x of Fin _ \<Rightarrow> JNum x | _ \<Rightarrow> JNull)"
| "sanitize (JArr vs) = JArr (map sanitize vs)"
| "sanitize (JObj ps) = JObj (map (\<lambda>p. (fst p, sanitize (snd p))) ps)"
| "sanitize v = v"

text \<open>
  The values whose text is read back in the same shape: every finite number is a binary64
  value, and the keys of every object are distinct and none is an array index, so that the
  properties keep the order in which they are written.
\<close>

fun plain :: "jsval \<Rightarrow> bool" where
  "plain (JNum x) = (case x of Fin r \<Rightarrow> is_double r | _ \<Rightarrow> True)"
| "plain (JArr vs) = list_all plain vs"
| "plain (JObj ps) =
     (distinct (map fst ps) \<and> list_all (\<lambda>p. array_index (fst p) = None) ps \<and>
      list_all (\<lambda>p. plain (snd p)) ps)"
| "plain v = True"

text \<open>The first character of the text of a value.\<close>

definition value_start :: "code_unit \<Rightarrow> bool" where
  "value_start c = (c = 110 \<or> c = 116 \<or> c = 102 \<or> c = 45 \<or> c = 34 \<or> c = 91 \<or> c = 123 \<or> is_digit c)"

text \<open>The text of one property of an object.\<close>

definition member_text :: "jsstring \<times> jsval \<Rightarrow> jsstring" where
  "member_text p = QuoteJSONString (fst p) @ [58] @ JSON_stringify (snd p)"

text \<open>The text of a value, followed by a delimiter, is parsed back with enough fuel.\<close>

definition reads_back :: "jsval \<Rightarrow> bool" where
  "reads_back v =
     (\<forall>f rest. plain v \<longrightarrow> delimited rest \<longrightarrow> 2 * length (JSON_stringify v @ rest) < f \<longrightarrow>
        parse_value f (JSON_stringify v @ rest) = Inr (sanitize v, rest))"

text \<open>
  A number of the language: a binary64 value, an infinity or \<open>NaN\<close>. A finite number is
  one of the binary64 values.
\<close>

definition js_number :: "number \<Rightarrow> bool" where
  "js_number x = (case x of Fin r \<Rightarrow> is_double r | _ \<Rightarrow> True)"

definition finite_number :: "number \<Rightarrow> bool" where
  "finite_number x = (case x of Fin r \<Rightarrow> is_double r | _ \<Rightarrow> False)"

text \<open>
  A line item of the data model: its price is a decimal number and its quantity an integer,
  so both are finite numbers.
\<close>

definition model_item :: "item \<Rightarrow> bool" where
  "model_item it = (finite_number (item_price it) \<and> finite_number (item_quantity it))"

section \<open>Rounding to a binary64 value\<close>

lemma bpow_pos: "0 < b \<Longrightarrow> 0 < bpow b e"
  by (simp add: bpow_def zero_less_power_int)

lemma bpow_add: "0 < b \<Longrightarrow> bpow b (m + n) = bpow b m * bpow b n"
  by (simp add: bpow_def power_int_add)

lemma bpow_diff: "0 < b \<Longrightarrow> bpow b (m - n) = bpow b m / bpow b n"
  by (simp add: bpow_def power_int_diff)

lemma bpow_nat: "bpow b (int n) = of_nat b ^ n"
  by (simp add: bpow_def)

lemma bpow_0: "bpow b 0 = 1"
  by (simp add: bpow_def)

lemma bpow_mono: "1 < b \<Longrightarrow> m \<le> n \<Longrightarrow> bpow b m \<le> bpow b n"
  by (simp add: bpow_def power_int_increasing)

lemma bpow_strict_mono: "1 < b \<Longrightarrow> m < n \<Longrightarrow> bpow b m < bpow b n"
  by (simp add: bpow_def power_int_strict_increasing)

lemma bpow_less_cancel: "1 < b \<Longrightarrow> bpow b m < bpow b n \<Longrightarrow> m < n"
  by (metis bpow_mono not_less)

lemma bpow_le_cancel: "1 < b \<Longrightarrow> bpow b m \<le> bpow b n \<Longrightarrow> m \<le> n"
  by (metis bpow_strict_mono not_less)

lemma ilog_rough:
  assumes x: "0 < x" and b: "1 < b"
  defines "d \<equiv> int (floorlog b (nat (fst (quotient_of x)))) - int (floorlog b (nat (snd (quotient_of x))))"
  shows "bpow b (d - 1) \<le> x" and "x < bpow b (d + 1)"
proof -
  obtain p q where pq: "quotient_of x = (p, q)" by (cases "quotient_of x")
  have q: "0 < q" using pq by (rule quotient_of_denom_pos)
  have xe: "x = of_int p / of_int q" using pq by (rule quotient_of_div)
  have p: "0 < p" using x q xe by (simp add: zero_less_divide_iff)
  define fp where "fp = floorlog b (nat p)"
  define fq where "fq = floorlog b (nat q)"
  have bp: "b ^ (fp - 1) \<le> nat p" "nat p < b ^ fp"
    using floorlog_bounds[of "nat p" b] p b by (auto simp: fp_def)
  have bq: "b ^ (fq - 1) \<le> nat q" "nat q < b ^ fq"
    using floorlog_bounds[of "nat q" b] q b by (auto simp: fq_def)
  have fp1: "1 \<le> fp" using p b by (simp add: fp_def floorlog_def)
  have fq1: "1 \<le> fq" using q b by (simp add: fq_def floorlog_def)
  have d: "d = int fp - int fq" by (simp add: d_def pq fp_def fq_def)
  have b0: "0 < b" using b by simp
  have rp: "(of_nat b :: rat) ^ (fp - 1) \<le> of_int p" "(of_int p :: rat) < of_nat b ^ fp"
  proof -
    have "(of_nat (b ^ (fp - 1)) :: rat) \<le> of_nat (nat p)" using bp(1) of_nat_le_iff by blast
    then show "(of_nat b :: rat) ^ (fp - 1) \<le> of_int p" using p by simp
    have "(of_nat (nat p) :: rat) < of_nat (b ^ fp)" using bp(2) of_nat_less_iff by blast
    then show "(of_int p :: rat) < of_nat b ^ fp" using p by simp
  qed
  have rq: "(of_nat b :: rat) ^ (fq - 1) \<le> of_int q" "(of_int q :: rat) < of_nat b ^ fq"
  proof -
    have "(of_nat (b ^ (fq - 1)) :: rat) \<le> of_nat (nat q)" using bq(1) of_nat_le_iff by blast
    then show "(of_nat b :: rat) ^ (fq - 1) \<le> of_int q" using q by simp
    have "(of_nat (nat q) :: rat) < of_nat (b ^ fq)" using bq(2) of_nat_less_iff by blast
    then show "(of_int q :: rat) < of_nat b ^ fq" using q by simp
  qed
  have e1: "bpow b (d - 1) = of_nat b ^ (fp - 1) / of_nat b ^ fq"
  proof -
    have "d - 1 = int (fp - 1) - int fq" using fp1 d by simp
    then show ?thesis using b0 by (simp add: bpow_diff bpow_nat)
  qed
  have e2: "bpow b (d + 1) = of_nat b ^ fp / of_nat b ^ (fq - 1)"
  proof -
    have "d + 1 = int fp - int (fq - 1)" using fq1 d by simp
    then show ?thesis using b0 by (simp add: bpow_diff bpow_nat)
  qed
  have qpos: "(0::rat) < of_int q" using q by simp
  have bfq: "(0::rat) < of_nat b ^ fq" "(0::rat) < of_nat b ^ (fq - 1)" using b0 by simp_all
  have "of_nat b ^ (fp - 1) / of_nat b ^ fq \<le> of_int p / (of_int q :: rat)"
    using rp(1) rq(2) qpos bfq p
    by (intro frac_le) (auto simp: less_imp_le)
  then show "bpow b (d - 1) \<le> x" by (simp add: e1 xe)
  have "of_int p / (of_int q :: rat) < of_nat b ^ fp / of_nat b ^ (fq - 1)"
    using rp(2) rq(1) qpos bfq p
    by (intro frac_less) (auto simp: less_imp_le)
  then show "x < bpow b (d + 1)" by (simp add: e2 xe)
qed

lemma ilog_bounds:
  assumes x: "0 < x" and b: "1 < b"
  shows "bpow b (ilog b x) \<le> x \<and> x < bpow b (ilog b x + 1)"
  using ilog_rough[OF x b]
  by (auto simp: ilog_def Let_def split_beta)

lemma ilog_unique:
  assumes b: "1 < b" and lo: "bpow b e \<le> x" and hi: "x < bpow b (e + 1)"
  shows "ilog b x = e"
proof -
  have x: "0 < x" using lo bpow_pos[of b e] b by simp
  note B = ilog_bounds[OF x b]
  have "bpow b (ilog b x) < bpow b (e + 1)" using B hi by simp
  then have 1: "ilog b x < e + 1" using b by (rule bpow_less_cancel[rotated])
  have "bpow b e < bpow b (ilog b x + 1)" using B lo by simp
  then have 2: "e < ilog b x + 1" using b by (rule bpow_less_cancel[rotated])
  show ?thesis using 1 2 by simp
qed

lemma round_half_even_near:
  assumes "\<bar>y - of_int m\<bar> < 1 / 2"
  shows "round_half_even y = m"
proof (cases "of_int m \<le> y")
  case True
  then have f: "\<lfloor>y\<rfloor> = m" using assms by (intro floor_unique) auto
  show ?thesis using assms True by (simp add: round_half_even_def f Let_def)
next
  case False
  then have f: "\<lfloor>y\<rfloor> = m - 1" using assms by (intro floor_unique) auto
  show ?thesis using assms False by (auto simp add: round_half_even_def f Let_def)
qed


lemma pow2_pos: "0 < pow2 e"
  by (simp add: pow2_def bpow_pos)

lemma pow2_add: "pow2 (m + n) = pow2 m * pow2 n"
  by (simp add: pow2_def bpow_add)

lemma pow2_nat: "pow2 (int n) = 2 ^ n"
  by (simp add: pow2_def bpow_nat)

lemma pow2_numeral: "pow2 (numeral k) = 2 ^ numeral k"
  using pow2_nat[of "numeral k"] by simp

lemma pow2_pred: "pow2 (q - 1) = pow2 q / 2"
  by (simp add: pow2_def bpow_def power_int_diff)

lemma pow2_pred2: "pow2 (q - 2) = pow2 q / 4"
  by (simp add: pow2_def bpow_def power_int_diff)

lemma pow2_mono: "m \<le> n \<Longrightarrow> pow2 m \<le> pow2 n"
  by (simp add: pow2_def bpow_mono)

lemma pow2_strict_mono: "m < n \<Longrightarrow> pow2 m < pow2 n"
  by (simp add: pow2_def bpow_strict_mono)

lemma ilog2_unique: "pow2 e \<le> x \<Longrightarrow> x < pow2 (e + 1) \<Longrightarrow> ilog2 x = e"
  unfolding ilog2_def pow2_def by (rule ilog_unique) auto

lemma ilog2_bounds: "0 < x \<Longrightarrow> pow2 (ilog2 x) \<le> x \<and> x < pow2 (ilog2 x + 1)"
  unfolding ilog2_def pow2_def by (rule ilog_bounds) auto

lemma ulp_exp_normal:
  assumes "pow2 (52 + q) \<le> y" "y < pow2 (53 + q)" "- 1074 \<le> q"
  shows "ulp_exp y = q"
proof -
  have "ilog2 y = 52 + q" using assms by (intro ilog2_unique) (simp_all add: add.commute add.left_commute)
  then show ?thesis using assms(3) by (simp add: ulp_exp_def)
qed

lemma ulp_exp_subnormal:
  assumes "0 < y" "y < pow2 (- 1022)"
  shows "ulp_exp y = - 1074"
proof -
  have "pow2 (ilog2 y) < pow2 (- 1022)" using ilog2_bounds[OF assms(1)] assms(2) by simp
  then have "ilog2 y < - 1022" by (metis pow2_mono not_less)
  then show ?thesis by (simp add: ulp_exp_def)
qed

lemma rnd_pos_ulp:
  assumes "ulp_exp y = q" "\<bar>y - of_int m * pow2 q\<bar> < pow2 q / 2"
  shows "rnd_pos y = of_int m * pow2 q"
proof -
  have p: "0 < pow2 q" by (rule pow2_pos)
  have "y / pow2 q - of_int m = (y - of_int m * pow2 q) / pow2 q"
    using p by (simp add: field_simps)
  then have "\<bar>y / pow2 q - of_int m\<bar> = \<bar>y - of_int m * pow2 q\<bar> / pow2 q"
    using p by (simp add: abs_divide less_imp_le)
  also have "\<dots> < 1 / 2" using assms(2) p by (simp add: field_simps)
  finally have "round_half_even (y / pow2 q) = m" by (rule round_half_even_near)
  then show ?thesis by (simp add: rnd_pos_def assms(1))
qed

lemma rnd_pos_near:
  fixes m :: int
  assumes m: "0 < m" "m < 2 ^ 53" and q: "- 1074 \<le> q" and c: "2 ^ 52 \<le> m \<or> q = - 1074"
    and y: "0 < y"
    and up: "y - of_int m * pow2 q < pow2 q / 2"
    and dn: "of_int m * pow2 q - y < (if m = 2 ^ 52 \<and> - 1074 < q then pow2 q / 4 else pow2 q / 2)"
  shows "rnd_pos y = of_int m * pow2 q"
proof -
  define r where "r = of_int m * pow2 q"
  have p: "0 < pow2 q" by (rule pow2_pos)
  have p52: "pow2 (52 + q) = 2 ^ 52 * pow2 q" by (simp add: pow2_add pow2_numeral)
  have p53: "pow2 (53 + q) = 2 ^ 53 * pow2 q" by (simp add: pow2_add pow2_numeral)
  have p51: "pow2 (51 + q) = 2 ^ 51 * pow2 q" by (simp add: pow2_add pow2_numeral)
  have mr: "(of_int m :: rat) \<le> 2 ^ 53 - 1"
  proof -
    have "m \<le> 2 ^ 53 - 1" using m(2) by simp
    then have "(of_int m :: rat) \<le> of_int (2 ^ 53 - 1)" by (simp only: of_int_le_iff)
    then show ?thesis by simp
  qed
  have rle: "r \<le> (2 ^ 53 - 1) * pow2 q" unfolding r_def using mr p by (simp add: mult_right_mono less_imp_le)
  have dn': "r - y < pow2 q / 2" using dn p by (auto simp: r_def split: if_splits)
  have near: "\<bar>y - r\<bar> < pow2 q / 2" using up dn' unfolding r_def by linarith
  show ?thesis
  proof (cases "m = 2 ^ 52 \<and> - 1074 < q \<and> y < r")
    case True
    then have re: "r = 2 ^ 52 * pow2 q" by (simp add: r_def)
    have d4: "r - y < pow2 q / 4" using dn True by (simp add: r_def)
    have "pow2 (51 + q) \<le> y" using d4 p by (simp add: p51 re)
    then have lo: "pow2 (52 + (q - 1)) \<le> y" by (simp add: add.commute)
    have "y < pow2 (52 + q)" using True by (simp add: re p52)
    then have hi: "y < pow2 (53 + (q - 1))" by (simp add: add.commute)
    have u: "ulp_exp y = q - 1" using lo hi True by (intro ulp_exp_normal) auto
    have yr: "y < r" using True by simp
    have "of_int (2 * m) * pow2 (q - 1) = r" by (simp add: pow2_pred r_def)
    then have "\<bar>y - of_int (2 * m) * pow2 (q - 1)\<bar> = r - y" using yr by simp
    then have "\<bar>y - of_int (2 * m) * pow2 (q - 1)\<bar> < pow2 (q - 1) / 2"
      using d4 by (simp add: pow2_pred)
    then have "rnd_pos y = of_int (2 * m) * pow2 (q - 1)" using u by (intro rnd_pos_ulp)
    then show ?thesis by (simp add: pow2_pred)
  next
    case False
    have hi0: "y < r + pow2 q / 2" using up by (simp add: r_def)
    have "r + pow2 q / 2 < 2 ^ 53 * pow2 q" using rle p by (simp add: algebra_simps)
    then have hi: "y < 2 ^ 53 * pow2 q" using hi0 by simp
    have u: "ulp_exp y = q"
    proof (cases "2 ^ 52 \<le> m")
      case True
      then have "(2 ^ 52 :: rat) \<le> of_int m"
        by (metis of_int_le_iff of_int_numeral of_int_power)
      then have rge: "2 ^ 52 * pow2 q \<le> r" using p by (simp add: r_def mult_right_mono less_imp_le)
      show ?thesis
      proof (cases "y < r")
        case yr: True
        show ?thesis
        proof (cases "m = 2 ^ 52")
          case m52: True
          then have q74: "q = - 1074" using False yr q by auto
          have "pow2 (52 + q) = pow2 (- 1022)" using q74 by simp
          then have "r = pow2 (- 1022)" using m52 by (simp add: r_def p52)
          then show ?thesis using yr y q74 by (simp add: ulp_exp_subnormal)
        next
          case m52: False
          then have "2 ^ 52 + 1 \<le> m" using True by simp
          then have "(of_int (2 ^ 52 + 1) :: rat) \<le> of_int m" by (simp only: of_int_le_iff)
          then have "(2 ^ 52 + 1) * pow2 q \<le> r" using p by (simp add: r_def mult_right_mono less_imp_le)
          then have "2 ^ 52 * pow2 q \<le> y" using dn' p by (simp add: algebra_simps)
          then show ?thesis using hi q by (intro ulp_exp_normal) (simp_all add: p52 p53)
        qed
      next
        case yr: False
        then have "2 ^ 52 * pow2 q \<le> y" using rge by simp
        then show ?thesis using hi q by (intro ulp_exp_normal) (simp_all add: p52 p53)
      qed
    next
      case False
      then have q74: "q = - 1074" using c by simp
      have "m \<le> 2 ^ 52 - 1" using False by simp
      then have "(of_int m :: rat) \<le> of_int (2 ^ 52 - 1)" by (simp only: of_int_le_iff)
      then have "r \<le> (2 ^ 52 - 1) * pow2 q" using p by (simp add: r_def mult_right_mono less_imp_le)
      then have "r + pow2 q / 2 < 2 ^ 52 * pow2 q" using p by (simp add: algebra_simps)
      then have "y < 2 ^ 52 * pow2 q" using hi0 by simp
      moreover have "pow2 (52 + q) = pow2 (- 1022)" using q74 by simp
      ultimately have "y < pow2 (- 1022)" using p52 by simp
      then show ?thesis using y q74 by (simp add: ulp_exp_subnormal)
    qed
    show ?thesis using u near unfolding r_def by (rule rnd_pos_ulp)
  qed
qed

lemma rnd_pos_int:
  fixes k :: int
  assumes k: "0 < k" "k \<le> 2 ^ 53"
  shows "rnd_pos (of_int k) = of_int k"
proof -
  define x :: rat where "x = of_int k"
  have x1: "1 \<le> x" using k(1) by (simp add: x_def)
  have "(of_int k :: rat) \<le> of_int (2 ^ 53)" using k(2) by (simp only: of_int_le_iff)
  then have x53: "x \<le> pow2 53" by (simp add: x_def pow2_numeral)
  have x0: "0 < x" using x1 by simp
  note B = ilog2_bounds[OF x0]
  define e where "e = ilog2 x"
  have "pow2 0 < pow2 (e + 1)" using B x1 by (simp add: e_def pow2_def bpow_0)
  then have e0: "0 \<le> e" by (metis pow2_mono not_less zless_add1_eq order_le_less)
  have e53: "e \<le> 53" using B x53 by (metis e_def pow2_strict_mono not_less order_trans)
  have u: "ulp_exp x = e - 52" using e0 by (simp add: ulp_exp_def e_def)
  show ?thesis
  proof (cases "e \<le> 52")
    case True
    define n where "n = nat (52 - e)"
    have en: "e - 52 = - int n" using True by (simp add: n_def)
    have pn: "pow2 (e - 52) = 1 / 2 ^ n"
      by (simp add: en pow2_def bpow_def power_int_minus_divide)
    have "of_int (k * 2 ^ n) * pow2 (e - 52) = x" by (simp add: pn x_def)
    moreover have "rnd_pos x = of_int (k * 2 ^ n) * pow2 (e - 52)"
      using u by (rule rnd_pos_ulp) (simp add: pn x_def)
    ultimately show ?thesis by (simp add: x_def)
  next
    case False
    then have e: "e = 53" using e53 by simp
    have "pow2 53 \<le> x" using B by (simp add: e_def[symmetric] e)
    then have xe: "x = 2 ^ 53" using x53 by (simp add: pow2_numeral)
    have "rnd_pos x = of_int (2 ^ 52) * pow2 (e - 52)"
      using u by (rule rnd_pos_ulp) (simp add: e xe pow2_def bpow_def)
    then show ?thesis by (simp add: e xe x_def[symmetric] pow2_def bpow_def)
  qed
qed

lemma to_number_int:
  fixes k :: int
  assumes "0 \<le> k" "k \<le> 2 ^ 53"
  shows "to_number (of_int k) = Fin (of_int k)"
proof (cases "k = 0")
  case True
  then show ?thesis by (simp add: to_number_def)
next
  case False
  then have k: "0 < k" using assms by simp
  have "(of_int k :: rat) \<le> of_int (2 ^ 53)" using assms(2) by (simp only: of_int_le_iff)
  then have "(of_int k :: rat) \<le> pow2 53" by (simp add: pow2_numeral)
  also have "\<dots> < pow2 1024" by (rule pow2_strict_mono) simp
  finally have "\<not> pow2 1024 \<le> of_int k" by simp
  then show ?thesis using k by (simp add: to_number_def rnd_pos_int[OF k assms(2)])
qed

lemma to_number_2_53_1: "to_number (2 ^ 53 + 1) = Fin (2 ^ 53)"
proof -
  define x :: rat where "x = 2 ^ 53 + 1"
  have u: "ulp_exp x = 1"
    by (rule ulp_exp_normal) (simp_all add: x_def pow2_numeral)
  have p1: "pow2 1 = 2" by (simp add: pow2_def bpow_def)
  have d: "x / 2 = of_int (2 ^ 52) + 1 / 2" by (simp add: x_def)
  have f: "\<lfloor>x / 2\<rfloor> = 2 ^ 52" unfolding d by (rule floor_unique) simp_all
  have "round_half_even (x / 2) = 2 ^ 52"
    by (simp add: round_half_even_def f Let_def) (simp add: x_def)
  then have r: "rnd_pos x = 2 ^ 53" by (simp add: rnd_pos_def u p1)
  have "(2 ^ 53 :: rat) = pow2 53" by (simp add: pow2_numeral)
  also have "\<dots> < pow2 1024" by (rule pow2_strict_mono) simp
  finally have "\<not> pow2 1024 \<le> (2 ^ 53 :: rat)" by simp
  then show ?thesis using r by (simp add: to_number_def x_def[symmetric]) (simp add: x_def)
qed

section \<open>The cart operations\<close>

lemma cart_saveCart: "cart (saveCart s) = cart s"
  by (simp add: saveCart_def)

lemma stored_saveCart: "stored (saveCart s) = Some (JSON_stringify (cart_value (cart s)))"
  by (simp add: saveCart_def)

lemma findIndex_ge: "- 1 \<le> findIndex P xs"
  by (induction xs) (auto simp: Let_def)

lemma findIndex_none: "(findIndex P xs = - 1) = (\<forall>x \<in> set xs. \<not> P x)"
proof (induction xs)
  case Nil
  then show ?case by simp
next
  case (Cons a xs)
  then show ?case using findIndex_ge[of P xs] by (auto simp: Let_def)
qed

lemma findIndex_neg: "(- 1 < findIndex P xs) = (\<exists>x \<in> set xs. P x)"
  using findIndex_none[of P xs] findIndex_ge[of P xs] by auto

lemma findIndex_split:
  "- 1 < findIndex P xs \<Longrightarrow>
     \<exists>pre x post. xs = pre @ x # post \<and> (\<forall>y \<in> set pre. \<not> P y) \<and> P x \<and> nat (findIndex P xs) = length pre"
proof (induction xs)
  case Nil
  then show ?case by simp
next
  case (Cons a xs)
  show ?case
  proof (cases "P a")
    case True
    then show ?thesis by (intro exI[of _ "[]"] exI[of _ a] exI[of _ xs]) simp
  next
    case False
    then have i: "- 1 < findIndex P xs" using Cons.prems by (auto simp: Let_def split: if_splits)
    from Cons.IH[OF i] obtain pre x post where
      h: "xs = pre @ x # post" "\<forall>y \<in> set pre. \<not> P y" "P x" "nat (findIndex P xs) = length pre"
      by blast
    have "nat (findIndex P (a # xs)) = length (a # pre)"
      using False i h(4) by (simp add: Let_def nat_add_distrib)
    then show ?thesis using h False
      by (intro exI[of _ "a # pre"] exI[of _ x] exI[of _ post]) simp
  qed
qed

lemma find_split:
  "List.find P xs = Some x \<Longrightarrow>
     \<exists>pre post. xs = pre @ x # post \<and> (\<forall>y \<in> set pre. \<not> P y) \<and> P x \<and> nat (findIndex P xs) = length pre"
proof (induction xs)
  case Nil
  then show ?case by simp
next
  case (Cons a xs)
  show ?case
  proof (cases "P a")
    case True
    then have "x = a" using Cons.prems by simp
    then show ?thesis using True by (intro exI[of _ "[]"] exI[of _ xs]) simp
  next
    case False
    then have f: "List.find P xs = Some x" using Cons.prems by simp
    from Cons.IH[OF f] obtain pre post where
      h: "xs = pre @ x # post" "\<forall>y \<in> set pre. \<not> P y" "P x" "nat (findIndex P xs) = length pre"
      by blast
    have "\<exists>y \<in> set xs. P y" using h by auto
    then have i: "- 1 < findIndex P xs" by (simp add: findIndex_neg)
    have "nat (findIndex P (a # xs)) = length (a # pre)"
      using False i h(4) by (simp add: Let_def nat_add_distrib)
    then show ?thesis using h False
      by (intro exI[of _ "a # pre"] exI[of _ post]) simp
  qed
qed

lemma find_none: "(List.find P xs = None) = (\<forall>x \<in> set xs. \<not> P x)"
  by (induction xs) auto

lemma increment_at_split:
  "increment_at (length pre) (pre @ x # post) = pre @ x\<lparr>item_quantity := js_inc (item_quantity x)\<rparr> # post"
  by (simp add: increment_at_def)

lemma decrement_at_split:
  "decrement_at (length pre) (pre @ x # post) = pre @ x\<lparr>item_quantity := js_dec (item_quantity x)\<rparr> # post"
  by (simp add: decrement_at_def)

lemma counted_one: "counted (Fin 1)"
  unfolding counted_def by (intro exI[of _ 1]) simp

lemma counted_ge: "counted x \<Longrightarrow> js_ge x (Fin 1)"
  by (auto simp: counted_def)

lemma counted_inc: "counted x \<Longrightarrow> counted (js_inc x)"
proof -
  assume "counted x"
  then obtain k :: int where k: "1 \<le> k" "k \<le> 2 ^ 53" "x = Fin (of_int k)"
    by (auto simp: counted_def)
  show ?thesis
  proof (cases "k = 2 ^ 53")
    case True
    then have "js_inc x = Fin (of_int (2 ^ 53))"
      using to_number_2_53_1 by (simp add: js_inc_def k(3))
    then show ?thesis unfolding counted_def by (intro exI[of _ "2 ^ 53"]) simp
  next
    case False
    then have b: "0 \<le> k + 1" "k + 1 \<le> 2 ^ 53" using k by simp_all
    have "js_inc x = to_number (of_int (k + 1))" by (simp add: js_inc_def k(3))
    then have "js_inc x = Fin (of_int (k + 1))" using to_number_int[OF b] by simp
    then show ?thesis unfolding counted_def using k b by (intro exI[of _ "k + 1"]) simp
  qed
qed

lemma counted_dec: "counted x \<Longrightarrow> js_gt x (Fin 1) \<Longrightarrow> counted (js_dec x)"
proof -
  assume "counted x" and g: "js_gt x (Fin 1)"
  then obtain k :: int where k: "1 \<le> k" "k \<le> 2 ^ 53" "x = Fin (of_int k)"
    by (auto simp: counted_def)
  have k2: "2 \<le> k" using g k(3) by simp
  have b: "0 \<le> k - 1" "k - 1 \<le> 2 ^ 53" using k k2 by simp_all
  have "js_dec x = to_number (of_int (k - 1))" by (simp add: js_dec_def k(3))
  then have "js_dec x = Fin (of_int (k - 1))" using to_number_int[OF b] by simp
  then show ?thesis unfolding counted_def using k2 b by (intro exI[of _ "k - 1"]) simp
qed

lemma cart_ok_filter: "cart_ok c \<Longrightarrow> cart_ok (filter P c)"
  by (auto simp: cart_ok_def distinct_map_filter)

lemma cart_ok_update:
  assumes "cart_ok (pre @ x # post)" "counted q"
  shows "cart_ok (pre @ x\<lparr>item_quantity := q\<rparr> # post)"
  using assms by (auto simp: cart_ok_def)

lemma cart_ok_add: "cart_ok (cart s) \<Longrightarrow> cart_ok (cart (addToCart i n p im s))"
proof -
  assume ok: "cart_ok (cart s)"
  let ?P = "\<lambda>it. item_id it = i"
  show ?thesis
  proof (cases "- 1 < findIndex ?P (cart s)")
    case True
    from findIndex_split[OF True] obtain pre x post where
      h: "cart s = pre @ x # post" "nat (findIndex ?P (cart s)) = length pre" by blast
    have cx: "counted (item_quantity x)" using ok h(1) by (simp add: cart_ok_def)
    have "cart (addToCart i n p im s) = pre @ x\<lparr>item_quantity := js_inc (item_quantity x)\<rparr> # post"
      using True h by (simp add: addToCart_def cart_saveCart Let_def increment_at_split)
    then show ?thesis using cart_ok_update[OF ok[unfolded h(1)] counted_inc[OF cx]] by simp
  next
    case False
    then have "findIndex ?P (cart s) = - 1" using findIndex_ge[of ?P "cart s"] by simp
    then have fresh: "\<forall>x \<in> set (cart s). item_id x \<noteq> i" by (simp add: findIndex_none)
    have "cart (addToCart i n p im s) = cart s @ [\<lparr>item_id = i, item_name = n, item_price = parseFloat p,
        item_image = im, item_quantity = Fin 1\<rparr>]"
      using False by (simp add: addToCart_def cart_saveCart Let_def)
    then show ?thesis using ok fresh counted_one by (auto simp: cart_ok_def)
  qed
qed

lemma cart_ok_quantity: "cart_ok (cart s) \<Longrightarrow> cart_ok (cart (quantityClick b i s))"
proof -
  assume ok: "cart_ok (cart s)"
  let ?P = "\<lambda>it. item_id it = i"
  show ?thesis
  proof (cases "List.find ?P (cart s)")
    case None
    then show ?thesis using ok by (simp add: quantityClick_def)
  next
    case (Some x)
    from find_split[OF Some] obtain pre post where
      h: "cart s = pre @ x # post" "nat (findIndex ?P (cart s)) = length pre" by blast
    have cx: "counted (item_quantity x)" using ok h(1) by (simp add: cart_ok_def)
    show ?thesis
    proof (cases b)
      case Increase
      then have "cart (quantityClick b i s) = pre @ x\<lparr>item_quantity := js_inc (item_quantity x)\<rparr> # post"
        using Some h by (simp add: quantityClick_def cart_saveCart increment_at_split)
      then show ?thesis using cart_ok_update[OF ok[unfolded h(1)] counted_inc[OF cx]] by simp
    next
      case Decrease
      show ?thesis
      proof (cases "js_gt (item_quantity x) (Fin 1)")
        case True
        then have "cart (quantityClick b i s) = pre @ x\<lparr>item_quantity := js_dec (item_quantity x)\<rparr> # post"
          using Some h Decrease by (simp add: quantityClick_def cart_saveCart decrement_at_split)
        then show ?thesis using cart_ok_update[OF ok[unfolded h(1)] counted_dec[OF cx True]] by simp
      next
        case False
        then have "cart (quantityClick b i s) = filter (\<lambda>it. item_id it \<noteq> i) (cart s)"
          using Some Decrease by (simp add: quantityClick_def cart_saveCart)
        then show ?thesis using cart_ok_filter[OF ok] by simp
      qed
    qed
  qed
qed

lemma cart_ok_step: "cart_ok (cart s) \<Longrightarrow> cart_ok (cart (apply_operation s op))"
proof (cases op)
  case (Add i n p im)
  assume "cart_ok (cart s)"
  then show ?thesis using Add by (simp add: cart_ok_add)
next
  case (Increment i)
  assume "cart_ok (cart s)"
  then show ?thesis using Increment by (simp add: cart_ok_quantity)
next
  case (Decrement i)
  assume "cart_ok (cart s)"
  then show ?thesis using Decrement by (simp add: cart_ok_quantity)
next
  case (Remove i)
  assume "cart_ok (cart s)"
  then show ?thesis using Remove by (simp add: removeClick_def cart_saveCart cart_ok_filter)
next
  case Clear
  assume "cart_ok (cart s)"
  then show ?thesis using Clear by (simp add: checkoutClick_def cart_saveCart cart_ok_def)
qed

lemma cart_ok_run: "cart_ok (cart s) \<Longrightarrow> cart_ok (cart (run ops s))"
  unfolding run_def by (induction ops arbitrary: s) (simp_all add: cart_ok_step)

text \<open>
  Claim C1. Whatever sequence of add, increment, decrement and remove operations (and
  checkouts) runs from an empty cart, the cart never holds two line items with the same id,
  and the quantity of every line item in it is at least 1.
\<close>

theorem cart_invariant:
  "cart s = [] \<Longrightarrow>
     distinct (map item_id (cart (run ops s))) \<and>
     (\<forall>it \<in> set (cart (run ops s)). js_ge (item_quantity it) (Fin 1))"
proof -
  assume "cart s = []"
  then have "cart_ok (cart s)" by (simp add: cart_ok_def)
  then have "cart_ok (cart (run ops s))" by (rule cart_ok_run)
  then show ?thesis by (auto simp: cart_ok_def counted_ge)
qed


theorem cart_invariant_witness:
  "cart \<lparr>cart = [], stored = None\<rparr> = [] \<and>
   distinct (map item_id (cart (run
     [Add (js ''X'') (js ''tea'') (js ''3.33'') (js ''t.png''),
      Add (js ''X'') (js ''tea'') (js ''3.33'') (js ''t.png''),
      Add (js ''Y'') (js ''jam'') (js ''10.00'') (js ''j.png''),
      Decrement (js ''Y''), Increment (js ''X''), Remove (js ''Z'')]
     \<lparr>cart = [], stored = None\<rparr>))) \<and>
   list_all (\<lambda>it. js_ge (item_quantity it) (Fin 1)) (cart (run
     [Add (js ''X'') (js ''tea'') (js ''3.33'') (js ''t.png''),
      Add (js ''X'') (js ''tea'') (js ''3.33'') (js ''t.png''),
      Add (js ''Y'') (js ''jam'') (js ''10.00'') (js ''j.png''),
      Decrement (js ''Y''), Increment (js ''X''), Remove (js ''Z'')]
     \<lparr>cart = [], stored = None\<rparr>))"
  using cart_invariant[of "\<lparr>cart = [], stored = None\<rparr>"
     "[Add (js ''X'') (js ''tea'') (js ''3.33'') (js ''t.png''),
       Add (js ''X'') (js ''tea'') (js ''3.33'') (js ''t.png''),
       Add (js ''Y'') (js ''jam'') (js ''10.00'') (js ''j.png''),
       Decrement (js ''Y''), Increment (js ''X''), Remove (js ''Z'')]"]
  by (simp add: list_all_iff)

lemma js_inc_one: "js_inc (Fin 1) = Fin 2"
  using to_number_int[of 2] by (simp add: js_inc_def)

lemma js_dec_two: "js_dec (Fin 2) = Fin 1"
  using to_number_int[of 1] by (simp add: js_dec_def)

lemma addToCart_fresh:
  assumes "i \<notin> item_id ` set (cart s)"
  shows "cart (addToCart i n p im s) =
           cart s @ [\<lparr>item_id = i, item_name = n, item_price = parseFloat p, item_image = im,
                      item_quantity = Fin 1\<rparr>]"
proof -
  have "\<forall>x \<in> set (cart s). item_id x \<noteq> i" using assms by auto
  then have "findIndex (\<lambda>it. item_id it = i) (cart s) = - 1" by (simp add: findIndex_none)
  then show ?thesis by (simp add: addToCart_def cart_saveCart)
qed

lemma addToCart_existing:
  assumes "i \<in> item_id ` set (cart s)"
  shows "\<exists>pre it post. cart s = pre @ it # post \<and> i \<notin> item_id ` set pre \<and> item_id it = i \<and>
           cart (addToCart i n p im s) = pre @ it\<lparr>item_quantity := js_inc (item_quantity it)\<rparr> # post"
proof -
  let ?P = "\<lambda>it. item_id it = i"
  have t: "- 1 < findIndex ?P (cart s)" using assms by (auto simp: findIndex_neg)
  from findIndex_split[OF t] obtain pre x post where
    h: "cart s = pre @ x # post" "\<forall>y \<in> set pre. item_id y \<noteq> i" "item_id x = i"
       "nat (findIndex ?P (cart s)) = length pre" by blast
  have "cart (addToCart i n p im s) = pre @ x\<lparr>item_quantity := js_inc (item_quantity x)\<rparr> # post"
    using t h by (simp add: addToCart_def cart_saveCart Let_def increment_at_split)
  then show ?thesis using h by (intro exI[of _ pre] exI[of _ x] exI[of _ post]) auto
qed

text \<open>
  Claim C5. On a cart that holds no line item with the id, \<open>addToCart\<close> appends a line
  item with quantity 1; a second \<open>addToCart\<close> with the same id leaves that line item with
  quantity 2, and the cart then holds exactly one line item with the id.
\<close>

theorem add_twice:
  assumes "productId \<notin> item_id ` set (cart s)"
  shows "cart (addToCart productId n p im s) =
           cart s @ [\<lparr>item_id = productId, item_name = n, item_price = parseFloat p,
                      item_image = im, item_quantity = Fin 1\<rparr>] \<and>
         cart (addToCart productId n' p' im' (addToCart productId n p im s)) =
           cart s @ [\<lparr>item_id = productId, item_name = n, item_price = parseFloat p,
                      item_image = im, item_quantity = Fin 2\<rparr>] \<and>
         length (line_items productId (cart (addToCart productId n' p' im' (addToCart productId n p im s)))) = 1"
proof -
  let ?new = "\<lparr>item_id = productId, item_name = n, item_price = parseFloat p,
                 item_image = im, item_quantity = Fin 1\<rparr>"
  let ?s1 = "addToCart productId n p im s"
  let ?P = "\<lambda>it. item_id it = productId"
  have fresh: "\<forall>x \<in> set (cart s). item_id x \<noteq> productId" using assms by auto
  have c1: "cart ?s1 = cart s @ [?new]" using assms by (rule addToCart_fresh)
  have t: "- 1 < findIndex ?P (cart ?s1)" by (simp add: findIndex_neg c1)
  from findIndex_split[OF t] obtain pre x post where
    h: "cart ?s1 = pre @ x # post" "\<forall>y \<in> set pre. item_id y \<noteq> productId" "item_id x = productId"
       "nat (findIndex ?P (cart ?s1)) = length pre" by blast
  have "pre = cart s \<and> x = ?new \<and> post = []"
  proof (cases post rule: rev_cases)
    case Nil
    then show ?thesis using h(1) c1 by simp
  next
    case (snoc ys y)
    then have "cart s = pre @ x # ys" using h(1) c1 by simp
    then have False using fresh h(3) by auto
    then show ?thesis ..
  qed
  then have idx: "nat (findIndex ?P (cart ?s1)) = length (cart s)" using h(4) by simp
  have c2: "cart (addToCart productId n' p' im' ?s1) = cart s @ [?new\<lparr>item_quantity := Fin 2\<rparr>]"
    using t idx increment_at_split[of "cart s" ?new "[]"]
    by (simp add: addToCart_def[of productId n' p' im'] cart_saveCart Let_def c1 js_inc_one)
  have "filter ?P (cart s) = []" using fresh by (simp add: filter_empty_conv)
  then have "length (line_items productId (cart (addToCart productId n' p' im' ?s1))) = 1"
    by (simp add: line_items_def c2)
  then show ?thesis using c1 c2 by simp
qed


theorem add_twice_witness:
  "js ''X'' \<notin> item_id ` set (cart \<lparr>cart = [], stored = None\<rparr>) \<and>
   cart (addToCart (js ''X'') (js ''tea'') (js ''3.33'') (js ''t.png'') \<lparr>cart = [], stored = None\<rparr>) =
     [\<lparr>item_id = js ''X'', item_name = js ''tea'', item_price = parseFloat (js ''3.33''),
       item_image = js ''t.png'', item_quantity = Fin 1\<rparr>] \<and>
   cart (addToCart (js ''X'') (js ''tea'') (js ''3.33'') (js ''t.png'')
          (addToCart (js ''X'') (js ''tea'') (js ''3.33'') (js ''t.png'') \<lparr>cart = [], stored = None\<rparr>)) =
     [\<lparr>item_id = js ''X'', item_name = js ''tea'', item_price = parseFloat (js ''3.33''),
       item_image = js ''t.png'', item_quantity = Fin 2\<rparr>]"
  using add_twice[of "js ''X''" "\<lparr>cart = [], stored = None\<rparr>" "js ''tea''" "js ''3.33''" "js ''t.png''"
      "js ''tea''" "js ''3.33''" "js ''t.png''"]
  by simp

text \<open>
  Claim C10. \<open>addToCart\<close> with an id that the cart holds changes the quantity of the
  first line item with that id and nothing else: the ids, names, prices and images of all
  line items stay as they were, whatever name, price and image the call passes.
\<close>

theorem add_existing_frame:
  assumes "productId \<in> item_id ` set (cart s)"
  shows "\<exists>pre it post.
           cart s = pre @ it # post \<and> productId \<notin> item_id ` set pre \<and> item_id it = productId \<and>
           cart (addToCart productId n p im s) =
             pre @ it\<lparr>item_quantity := js_inc (item_quantity it)\<rparr> # post \<and>
           map item_id (cart (addToCart productId n p im s)) = map item_id (cart s) \<and>
           map item_name (cart (addToCart productId n p im s)) = map item_name (cart s) \<and>
           map item_price (cart (addToCart productId n p im s)) = map item_price (cart s) \<and>
           map item_image (cart (addToCart productId n p im s)) = map item_image (cart s)"
proof -
  from addToCart_existing[OF assms, of n p im] obtain pre it post where
    h: "cart s = pre @ it # post" "productId \<notin> item_id ` set pre" "item_id it = productId"
       "cart (addToCart productId n p im s) = pre @ it\<lparr>item_quantity := js_inc (item_quantity it)\<rparr> # post"
    by blast
  show ?thesis using h by (intro exI[of _ pre] exI[of _ it] exI[of _ post]) simp
qed


theorem add_existing_frame_witness:
  "js ''X'' \<in> item_id ` set (cart \<lparr>cart = [\<lparr>item_id = js ''X'', item_name = js ''tea'',
       item_price = Fin 3, item_image = js ''t.png'', item_quantity = Fin 1\<rparr>], stored = None\<rparr>) \<and>
   map item_name (cart (addToCart (js ''X'') (js ''coffee'') (js ''9.99'') (js ''c.png'')
       \<lparr>cart = [\<lparr>item_id = js ''X'', item_name = js ''tea'',
       item_price = Fin 3, item_image = js ''t.png'', item_quantity = Fin 1\<rparr>], stored = None\<rparr>)) = [js ''tea''] \<and>
   map item_price (cart (addToCart (js ''X'') (js ''coffee'') (js ''9.99'') (js ''c.png'')
       \<lparr>cart = [\<lparr>item_id = js ''X'', item_name = js ''tea'',
       item_price = Fin 3, item_image = js ''t.png'', item_quantity = Fin 1\<rparr>], stored = None\<rparr>)) = [Fin 3] \<and>
   map item_image (cart (addToCart (js ''X'') (js ''coffee'') (js ''9.99'') (js ''c.png'')
       \<lparr>cart = [\<lparr>item_id = js ''X'', item_name = js ''tea'',
       item_price = Fin 3, item_image = js ''t.png'', item_quantity = Fin 1\<rparr>], stored = None\<rparr>)) = [js ''t.png'']"
  using add_existing_frame[of "js ''X''" "\<lparr>cart = [\<lparr>item_id = js ''X'', item_name = js ''tea'',
       item_price = Fin 3, item_image = js ''t.png'', item_quantity = Fin 1\<rparr>], stored = None\<rparr>"
       "js ''coffee''" "js ''9.99''" "js ''c.png''"]
  by auto

text \<open>
  Claim C6. The decrease button of a line item with quantity 1 removes the line items with
  that id from the cart; on a line item with quantity 2 it leaves the line item in its place
  with quantity 1.
\<close>

theorem decrement_item:
  assumes "List.find (\<lambda>it. item_id it = i) (cart s) = Some found"
  shows "(item_quantity found = Fin 1 \<longrightarrow>
            cart (quantityClick Decrease i s) = filter (\<lambda>it. item_id it \<noteq> i) (cart s) \<and>
            i \<notin> item_id ` set (cart (quantityClick Decrease i s))) \<and>
         (item_quantity found = Fin 2 \<longrightarrow>
            (\<exists>pre post. cart s = pre @ found # post \<and> i \<notin> item_id ` set pre \<and>
               cart (quantityClick Decrease i s) = pre @ found\<lparr>item_quantity := Fin 1\<rparr> # post) \<and>
            i \<in> item_id ` set (cart (quantityClick Decrease i s)))"
proof -
  let ?P = "\<lambda>it. item_id it = i"
  from find_split[OF assms] obtain pre post where
    h: "cart s = pre @ found # post" "\<forall>y \<in> set pre. item_id y \<noteq> i" "item_id found = i"
       "nat (findIndex ?P (cart s)) = length pre" by blast
  have one: "cart (quantityClick Decrease i s) = filter (\<lambda>it. item_id it \<noteq> i) (cart s)"
    if "item_quantity found = Fin 1"
    using that assms by (simp add: quantityClick_def cart_saveCart)
  have two: "cart (quantityClick Decrease i s) = pre @ found\<lparr>item_quantity := Fin 1\<rparr> # post"
    if "item_quantity found = Fin 2"
    using that assms h by (simp add: quantityClick_def cart_saveCart decrement_at_split js_dec_two)
  have pre: "i \<notin> item_id ` set pre" using h(2) by auto
  show ?thesis
  proof (intro conjI impI)
    assume q: "item_quantity found = Fin 1"
    show "cart (quantityClick Decrease i s) = filter (\<lambda>it. item_id it \<noteq> i) (cart s)" by (rule one[OF q])
    show "i \<notin> item_id ` set (cart (quantityClick Decrease i s))" by (auto simp: one[OF q])
  next
    assume q: "item_quantity found = Fin 2"
    show "\<exists>pre post. cart s = pre @ found # post \<and> i \<notin> item_id ` set pre \<and>
               cart (quantityClick Decrease i s) = pre @ found\<lparr>item_quantity := Fin 1\<rparr> # post"
      using h(1) pre two[OF q] by blast
    show "i \<in> item_id ` set (cart (quantityClick Decrease i s))"
      using h(3) by (simp add: two[OF q])
  qed
qed


theorem decrement_item_witness:
  "List.find (\<lambda>it. item_id it = js ''X'')
     (cart \<lparr>cart = [\<lparr>item_id = js ''X'', item_name = js ''tea'', item_price = Fin 3,
        item_image = js ''t.png'', item_quantity = Fin 2\<rparr>], stored = None\<rparr>) =
     Some \<lparr>item_id = js ''X'', item_name = js ''tea'', item_price = Fin 3,
        item_image = js ''t.png'', item_quantity = Fin 2\<rparr> \<and>
   js ''X'' \<in> item_id ` set (cart (quantityClick Decrease (js ''X'')
     \<lparr>cart = [\<lparr>item_id = js ''X'', item_name = js ''tea'', item_price = Fin 3,
        item_image = js ''t.png'', item_quantity = Fin 2\<rparr>], stored = None\<rparr>)) \<and>
   List.find (\<lambda>it. item_id it = js ''X'')
     (cart \<lparr>cart = [\<lparr>item_id = js ''X'', item_name = js ''tea'', item_price = Fin 3,
        item_image = js ''t.png'', item_quantity = Fin 1\<rparr>], stored = None\<rparr>) =
     Some \<lparr>item_id = js ''X'', item_name = js ''tea'', item_price = Fin 3,
        item_image = js ''t.png'', item_quantity = Fin 1\<rparr> \<and>
   js ''X'' \<notin> item_id ` set (cart (quantityClick Decrease (js ''X'')
     \<lparr>cart = [\<lparr>item_id = js ''X'', item_name = js ''tea'', item_price = Fin 3,
        item_image = js ''t.png'', item_quantity = Fin 1\<rparr>], stored = None\<rparr>))"
  using decrement_item[of "js ''X''" "\<lparr>cart = [\<lparr>item_id = js ''X'', item_name = js ''tea'', item_price = Fin 3,
        item_image = js ''t.png'', item_quantity = Fin 2\<rparr>], stored = None\<rparr>"
        "\<lparr>item_id = js ''X'', item_name = js ''tea'', item_price = Fin 3,
        item_image = js ''t.png'', item_quantity = Fin 2\<rparr>"]
     decrement_item[of "js ''X''" "\<lparr>cart = [\<lparr>item_id = js ''X'', item_name = js ''tea'', item_price = Fin 3,
        item_image = js ''t.png'', item_quantity = Fin 1\<rparr>], stored = None\<rparr>"
        "\<lparr>item_id = js ''X'', item_name = js ''tea'', item_price = Fin 3,
        item_image = js ''t.png'', item_quantity = Fin 1\<rparr>"]
  by simp

section \<open>Listings, the empty cart and persistence\<close>

lemma js_slice_0: "js_slice 0 n xs = take n xs"
  by (simp add: js_slice_def min_def)

lemma featured_cards_eq: "featured_cards ps = take 4 (filter admit_featured ps)"
proof -
  have e: "(\<lambda>p. truthy (product_name p) \<and> truthy (image_url p) \<and> truthy (brands p)) = admit_featured"
    by (simp add: fun_eq_iff admit_featured_def)
  show ?thesis by (simp add: featured_cards_def e js_slice_0 Let_def)
qed

lemma all_cards_eq: "all_cards ps = take 20 (filter admit_general ps)"
proof -
  have e: "(\<lambda>p. truthy (product_name p) \<and> truthy (image_url p)) = admit_general"
    by (simp add: fun_eq_iff admit_general_def)
  show ?thesis by (simp add: all_cards_def e js_slice_0 Let_def min_def)
qed

text \<open>
  Claim C8. The featured listing shows the first 4 of the fetched records whose name, image
  and brand are all truthy; the general listing shows the first 20 of the records whose name
  and image are truthy. A record with name and image but no brand is therefore never in the
  featured listing, while the general filter admits it, and the general listing shows it
  when no more than 20 records qualify.
\<close>

theorem listing_filters:
  "featured_cards ps = take 4 (filter admit_featured ps) \<and>
   all_cards ps = take 20 (filter admit_general ps) \<and>
   (truthy (product_name r) \<and> truthy (image_url r) \<and> \<not> truthy (brands r) \<longrightarrow>
      r \<notin> set (featured_cards ps) \<and>
      (r \<in> set ps \<longrightarrow> r \<in> set (filter admit_general ps)) \<and>
      (r \<in> set ps \<and> length (filter admit_general ps) \<le> 20 \<longrightarrow> r \<in> set (all_cards ps)))"
proof (intro conjI impI)
  show "featured_cards ps = take 4 (filter admit_featured ps)" by (rule featured_cards_eq)
  show "all_cards ps = take 20 (filter admit_general ps)" by (rule all_cards_eq)
next
  assume a: "truthy (product_name r) \<and> truthy (image_url r) \<and> \<not> truthy (brands r)"
  then have "\<not> admit_featured r" by (simp add: admit_featured_def)
  then have "r \<notin> set (filter admit_featured ps)" by simp
  then show "r \<notin> set (featured_cards ps)" unfolding featured_cards_eq by (metis in_set_takeD)
next
  assume a: "truthy (product_name r) \<and> truthy (image_url r) \<and> \<not> truthy (brands r)" and "r \<in> set ps"
  then show "r \<in> set (filter admit_general ps)" by (simp add: admit_general_def)
next
  assume a: "truthy (product_name r) \<and> truthy (image_url r) \<and> \<not> truthy (brands r)"
    and b: "r \<in> set ps \<and> length (filter admit_general ps) \<le> 20"
  then show "r \<in> set (all_cards ps)" by (simp add: all_cards_eq admit_general_def)
qed


theorem listing_filters_witness:
  "truthy (product_name \<lparr>product_name = Some (JStr (js ''tea'')), image_url = Some (JStr (js ''t.png'')), brands = None\<rparr>) \<and>
   truthy (image_url \<lparr>product_name = Some (JStr (js ''tea'')), image_url = Some (JStr (js ''t.png'')), brands = None\<rparr>) \<and>
   \<not> truthy (brands \<lparr>product_name = Some (JStr (js ''tea'')), image_url = Some (JStr (js ''t.png'')), brands = None\<rparr>) \<and>
   \<lparr>product_name = Some (JStr (js ''tea'')), image_url = Some (JStr (js ''t.png'')), brands = None\<rparr>
     \<notin> set (featured_cards [\<lparr>product_name = Some (JStr (js ''tea'')), image_url = Some (JStr (js ''t.png'')), brands = None\<rparr>]) \<and>
   \<lparr>product_name = Some (JStr (js ''tea'')), image_url = Some (JStr (js ''t.png'')), brands = None\<rparr>
     \<in> set (all_cards [\<lparr>product_name = Some (JStr (js ''tea'')), image_url = Some (JStr (js ''t.png'')), brands = None\<rparr>])"
  using listing_filters[of "[\<lparr>product_name = Some (JStr (js ''tea'')), image_url = Some (JStr (js ''t.png'')), brands = None\<rparr>]"
      "\<lparr>product_name = Some (JStr (js ''tea'')), image_url = Some (JStr (js ''t.png'')), brands = None\<rparr>"]
  by (simp add: truthy_def js_def admit_general_def admit_featured_def)

text \<open>
  Claim C4. For the empty cart \<open>renderCart\<close> shows the empty-cart message, writes
  \<open>0.00\<close> as the subtotal and \<open>0.00\<close> as the total (no shipping cost is added) and
  disables the checkout button.
\<close>

theorem empty_cart_view:
  "renderCart [] =
     \<lparr>empty_message_shown = True, subtotal_text = js ''0.00'', total_text = js ''0.00'',
      checkout_disabled = True\<rparr> \<and>
   js ''0.00'' = [48, 46, 48, 48]"
  by (simp add: renderCart_def js_def)


theorem empty_cart_view_witness:
  "empty_message_shown (renderCart []) \<and> checkout_disabled (renderCart []) \<and>
   subtotal_text (renderCart []) = [48, 46, 48, 48] \<and> total_text (renderCart []) = [48, 46, 48, 48]"
  using empty_cart_view by simp

lemma synced_saveCart: "synced (saveCart s)"
  by (simp add: synced_def saveCart_def)

text \<open>
  Claim C9. Every operation of the cart that changes anything is followed by
  \<open>saveCart\<close>: after an add, an increment, a decrement, a remove or a checkout, either
  the state is exactly what it was (the quantity handler found no item with the id, or the
  checkout handler found the cart empty, and nothing was mutated), or the stored value is
  the serialization of the cart in memory. An add and a remove always save; an increment
  and a decrement save whenever the cart holds the id; a checkout saves whenever the cart
  is not empty.
\<close>

theorem persist_after_mutation:
  "(apply_operation s op = s \<or> synced (apply_operation s op)) \<and>
   (cart (apply_operation s op) \<noteq> cart s \<longrightarrow> synced (apply_operation s op)) \<and>
   synced (apply_operation s (Add productId n p im)) \<and>
   synced (apply_operation s (Remove i)) \<and>
   (i \<in> item_id ` set (cart s) \<longrightarrow>
      synced (apply_operation s (Increment i)) \<and> synced (apply_operation s (Decrement i))) \<and>
   (cart s \<noteq> [] \<longrightarrow> synced (apply_operation s Clear))"
proof -
  have a: "synced (apply_operation s (Add productId' n' p' im'))" for productId' n' p' im'
    by (simp add: addToCart_def synced_saveCart Let_def)
  have r: "synced (apply_operation s (Remove j))" for j
    by (simp add: removeClick_def synced_saveCart)
  have q: "synced (quantityClick b j s)" if "j \<in> item_id ` set (cart s)" for b j
  proof -
    have "List.find (\<lambda>it. item_id it = j) (cart s) \<noteq> None" using that by (auto simp: find_none)
    then obtain x where "List.find (\<lambda>it. item_id it = j) (cart s) = Some x" by auto
    then show ?thesis by (simp add: quantityClick_def synced_saveCart)
  qed
  have nq: "quantityClick b j s = s" if "j \<notin> item_id ` set (cart s)" for b j
  proof -
    have "List.find (\<lambda>it. item_id it = j) (cart s) = None" using that by (auto simp: find_none)
    then show ?thesis by (simp add: quantityClick_def)
  qed
  have c: "synced (apply_operation s Clear)" if "cart s \<noteq> []"
    using that by (simp add: checkoutClick_def synced_saveCart)
  have nc: "apply_operation s Clear = s" if "cart s = []"
    using that by (simp add: checkoutClick_def)
  have d: "apply_operation s op = s \<or> synced (apply_operation s op)"
  proof (cases op)
    case (Add productId' n' p' im')
    then show ?thesis using a by simp
  next
    case (Increment j)
    then show ?thesis using q[of j Increase] nq[of j Increase] by auto
  next
    case (Decrement j)
    then show ?thesis using q[of j Decrease] nq[of j Decrease] by auto
  next
    case (Remove j)
    then show ?thesis using r by simp
  next
    case Clear
    then show ?thesis using c nc by auto
  qed
  have e: "synced (apply_operation s op)" if "cart (apply_operation s op) \<noteq> cart s"
    using d that by auto
  show ?thesis using d e a r q c by simp
qed

theorem persist_after_mutation_witness:
  "js ''X'' \<in> item_id ` set (cart \<lparr>cart = [\<lparr>item_id = js ''X'', item_name = js ''tea'',
       item_price = Fin 3, item_image = js ''t.png'', item_quantity = Fin 2\<rparr>], stored = None\<rparr>) \<and>
   cart \<lparr>cart = [\<lparr>item_id = js ''X'', item_name = js ''tea'',
       item_price = Fin 3, item_image = js ''t.png'', item_quantity = Fin 2\<rparr>], stored = None\<rparr> \<noteq> [] \<and>
   synced (apply_operation \<lparr>cart = [\<lparr>item_id = js ''X'', item_name = js ''tea'',
       item_price = Fin 3, item_image = js ''t.png'', item_quantity = Fin 2\<rparr>], stored = None\<rparr>
       (Add (js ''Y'') (js ''jam'') (js ''10.00'') (js ''j.png''))) \<and>
   synced (apply_operation \<lparr>cart = [\<lparr>item_id = js ''X'', item_name = js ''tea'',
       item_price = Fin 3, item_image = js ''t.png'', item_quantity = Fin 2\<rparr>], stored = None\<rparr>
       (Remove (js ''X''))) \<and>
   synced (apply_operation \<lparr>cart = [\<lparr>item_id = js ''X'', item_name = js ''tea'',
       item_price = Fin 3, item_image = js ''t.png'', item_quantity = Fin 2\<rparr>], stored = None\<rparr>
       (Increment (js ''X''))) \<and>
   synced (apply_operation \<lparr>cart = [\<lparr>item_id = js ''X'', item_name = js ''tea'',
       item_price = Fin 3, item_image = js ''t.png'', item_quantity = Fin 2\<rparr>], stored = None\<rparr>
       (Decrement (js ''X''))) \<and>
   synced (apply_operation \<lparr>cart = [\<lparr>item_id = js ''X'', item_name = js ''tea'',
       item_price = Fin 3, item_image = js ''t.png'', item_quantity = Fin 2\<rparr>], stored = None\<rparr>
       Clear)"
proof -
  define s1 where "s1 = \<lparr>cart = [\<lparr>item_id = js ''X'', item_name = js ''tea'',
       item_price = Fin 3, item_image = js ''t.png'', item_quantity = Fin 2\<rparr>], stored = None\<rparr>"
  have h: "js ''X'' \<in> item_id ` set (cart s1)" "cart s1 \<noteq> []" by (simp_all add: s1_def)
  have "synced (apply_operation s1 (Add (js ''Y'') (js ''jam'') (js ''10.00'') (js ''j.png''))) \<and>
        synced (apply_operation s1 (Remove (js ''X''))) \<and>
        synced (apply_operation s1 (Increment (js ''X''))) \<and>
        synced (apply_operation s1 (Decrement (js ''X''))) \<and>
        synced (apply_operation s1 Clear)"
    using persist_after_mutation[of s1 Clear "js ''Y''" "js ''jam''" "js ''10.00''" "js ''j.png''" "js ''X''"] h
    by blast
  then show ?thesis using h unfolding s1_def by blast
qed

section \<open>The totals of the cart page\<close>

lemma dd: "dec_digits 2999 = js ''2999''"
  by (simp add: js_def digit_char_def)

lemma pow2_neg_numeral: "pow2 (- numeral k) = 1 / 2 ^ numeral k"
  by (simp add: pow2_def bpow_def power_int_minus_divide)

lemma pow10_nat: "pow10 (int n) = 10 ^ n"
  by (simp add: pow10_def bpow_nat)

lemma pow10_neg_numeral: "pow10 (- numeral k) = 1 / 10 ^ numeral k"
  by (simp add: pow10_def bpow_def power_int_minus_divide)

lemma pow10_0: "pow10 0 = 1"
  by (simp add: pow10_def bpow_def)

lemma rnd_pos_eval:
  assumes "pow2 (52 + q) \<le> y" "y < pow2 (53 + q)" "- 1074 \<le> q" "round_half_even (y / pow2 q) = m"
  shows "rnd_pos y = of_int m * pow2 q"
  using ulp_exp_normal[OF assms(1,2,3)] assms(4) by (simp add: rnd_pos_def)

lemma round_half_even_eval:
  assumes "of_int f \<le> y" "y < of_int f + 1"
  shows "round_half_even y =
     (if y - of_int f < 1 / 2 then f else if 1 / 2 < y - of_int f then f + 1
      else if even f then f else f + 1)"
proof -
  have "\<lfloor>y\<rfloor> = f" using assms by (intro floor_unique) auto
  then show ?thesis by (simp add: round_half_even_def Let_def)
qed

lemma to_number_pos:
  assumes "0 < y" "rnd_pos y = r" "r < pow2 1024"
  shows "to_number y = Fin r"
  using assms by (simp add: to_number_def)

lemma to_number_small:
  assumes "0 < y" "rnd_pos y = r" "r \<le> 2 ^ 60"
  shows "to_number y = Fin r"
proof -
  note assms(3)
  also have "(2 ^ 60 :: rat) = pow2 60" by (simp add: pow2_numeral)
  also have "\<dots> < pow2 1024" by (rule pow2_strict_mono) simp
  finally show ?thesis using assms(1,2) by (simp add: to_number_def)
qed

lemma to_number_333: "to_number (333 / 100) = Fin d333"
proof -
  have "rnd_pos (333 / 100) = of_int 7498493379571876 * pow2 (- 51)"
    by (rule rnd_pos_near) (simp_all add: pow2_neg_numeral)
  then have r: "rnd_pos (333 / 100) = d333" by (simp add: d333_def pow2_neg_numeral)
  show ?thesis by (rule to_number_small[OF _ r]) (simp_all add: d333_def pow2_neg_numeral)
qed

lemma to_number_999: "to_number (999 / 100) = Fin d999"
proof -
  have "rnd_pos (999 / 100) = of_int 5623870034678907 * pow2 (- 49)"
    by (rule rnd_pos_near) (simp_all add: pow2_neg_numeral)
  then have r: "rnd_pos (999 / 100) = d999" by (simp add: d999_def pow2_neg_numeral)
  show ?thesis by (rule to_number_small[OF _ r]) (simp_all add: d999_def pow2_neg_numeral)
qed

lemma mul_333_3: "to_number (d333 * 3) = Fin d999"
proof -
  have "rnd_pos (d333 * 3) = of_int 5623870034678907 * pow2 (- 49)"
    by (rule rnd_pos_near) (simp_all add: pow2_neg_numeral d333_def)
  then have r: "rnd_pos (d333 * 3) = d999" by (simp add: d333_def d999_def pow2_neg_numeral)
  show ?thesis by (rule to_number_small[OF _ r]) (simp_all add: d333_def d999_def pow2_neg_numeral)
qed

lemma add_20_999: "to_number (20 + d999) = Fin d2999"
proof -
  have r: "round_half_even ((20 + d999) / pow2 (- 48)) = 8441434551552574"
    by (subst round_half_even_eval[of 8441434551552573]) (simp_all add: d999_def pow2_neg_numeral)
  have "rnd_pos (20 + d999) = of_int 8441434551552574 * pow2 (- 48)"
    by (rule rnd_pos_eval[OF _ _ _ r]) (simp_all add: pow2_neg_numeral pow2_numeral d999_def)
  then have r: "rnd_pos (20 + d999) = d2999" by (simp add: d999_def d2999_def pow2_neg_numeral)
  show ?thesis by (rule to_number_small[OF _ r]) (simp_all add: d999_def d2999_def pow2_neg_numeral)
qed

lemma add_2999_5: "to_number (d2999 + 5) = Fin d3499"
proof -
  have "rnd_pos (d2999 + 5) = of_int 4924404717552927 * pow2 (- 47)"
    by (rule rnd_pos_near) (simp_all add: pow2_neg_numeral d2999_def)
  then have r: "rnd_pos (d2999 + 5) = d3499" by (simp add: d2999_def d3499_def pow2_neg_numeral)
  show ?thesis by (rule to_number_small[OF _ r]) (simp_all add: d2999_def d3499_def pow2_neg_numeral)
qed

declare toFixed.simps [simp del]
declare dec_digits.simps [simp del]

lemma fixed_digits_eval:
  assumes "of_nat n \<le> x * 10 ^ f + 1 / 2" "x * 10 ^ f + 1 / 2 < of_nat n + 1"
  shows "fixed_digits f x =
     (if f = 0 then dec_digits n
      else take (length (replicate (f + 1 - length (dec_digits n)) 48 @ dec_digits n) - f)
             (replicate (f + 1 - length (dec_digits n)) 48 @ dec_digits n) @ [46] @
           drop (length (replicate (f + 1 - length (dec_digits n)) 48 @ dec_digits n) - f)
             (replicate (f + 1 - length (dec_digits n)) 48 @ dec_digits n))"
proof -
  have "\<lfloor>x * 10 ^ f + 1 / 2\<rfloor> = int n" using assms by (intro floor_unique) auto
  then show ?thesis by (simp add: fixed_digits_def Let_def)
qed

lemma parseFloat_1000: "parseFloat (js ''10.00'') = Fin 10"
  using to_number_int[of 10]
  by (simp add: parseFloat_def js_def is_str_ws_def starts_with_def is_digit_def
      exponent_part_def decimal_value_def digits_val_def signed_number_def pow10_neg_numeral)

lemma parseFloat_333: "parseFloat (js ''3.33'') = Fin d333"
  using to_number_333
  by (simp add: parseFloat_def js_def is_str_ws_def starts_with_def is_digit_def
      exponent_part_def decimal_value_def digits_val_def signed_number_def pow10_neg_numeral)

lemma parseFloat_2000: "parseFloat (js ''20.00'') = Fin 20"
  using to_number_int[of 20]
  by (simp add: parseFloat_def js_def is_str_ws_def starts_with_def is_digit_def
      exponent_part_def decimal_value_def digits_val_def signed_number_def pow10_neg_numeral)

lemma parseFloat_999: "parseFloat (js ''9.99'') = Fin d999"
  using to_number_999
  by (simp add: parseFloat_def js_def is_str_ws_def starts_with_def is_digit_def
      exponent_part_def decimal_value_def digits_val_def signed_number_def pow10_neg_numeral)

lemma toFixed_20: "toFixed 2 (Fin 20) = js ''20.00''"
  by (simp add: toFixed.simps fixed_digits_eval[of 2000] js_def digit_char_def dec_digits.simps)

lemma toFixed_999: "toFixed 2 (Fin d999) = js ''9.99''"
proof -
  have "fixed_digits 2 d999 = js ''9.99''"
    by (subst fixed_digits_eval[of 999]) (simp_all add: d999_def js_def digit_char_def dec_digits.simps)
  then show ?thesis by (simp add: toFixed.simps d999_def)
qed

lemma toFixed_2999: "toFixed 2 (Fin d2999) = js ''29.99''"
proof -
  have "fixed_digits 2 d2999 = js ''29.99''"
    by (subst fixed_digits_eval[of 2999]) (simp_all add: d2999_def js_def digit_char_def dec_digits.simps)
  then show ?thesis by (simp add: toFixed.simps d2999_def)
qed

lemma toFixed_3499: "toFixed 2 (Fin d3499) = js ''34.99''"
proof -
  have "fixed_digits 2 d3499 = js ''34.99''"
    by (subst fixed_digits_eval[of 3499]) (simp_all add: d3499_def js_def digit_char_def dec_digits.simps)
  then show ?thesis by (simp add: toFixed.simps d3499_def)
qed

lemma toFixed_5: "toFixed 2 (Fin 5) = js ''5.00''"
  by (simp add: toFixed.simps fixed_digits_eval[of 500] js_def digit_char_def dec_digits.simps)

lemma foldl_add_item_total:
  "foldl add_item_total a c = foldl fadd a (map (\<lambda>it. round2 (fmul (item_price it) (item_quantity it))) c)"
  by (induction c arbitrary: a) (simp_all add: add_item_total_def itemTotalPrice_def round2_def)

lemma subtotal_example: "spec_subtotal example_cart = Fin d2999"
proof -
  have n20: "to_number 20 = Fin 20" using to_number_int[of 20] by simp
  have a: "round2 (Fin 20) = Fin 20"
    by (simp add: round2_def toFixed_20 parseFloat_2000)
  have b: "round2 (Fin d999) = Fin d999"
    by (simp add: round2_def toFixed_999 parseFloat_999)
  show ?thesis
    by (simp add: spec_subtotal_def float_sum_def example_cart_def parseFloat_1000 parseFloat_333
        n20 mul_333_3 a b add_20_999)
qed

text \<open>
  Claim C3, as stated, fails on the empty cart: \<open>renderCart\<close> returns early with the
  total \<open>0.00\<close>, not the subtotal plus the shipping cost, which would print \<open>5.00\<close>.
\<close>

theorem totals_counterexample:
  "total_text (renderCart []) \<noteq> toFixed 2 (fadd (spec_subtotal []) SHIPPING_COST)"
  using to_number_int[of 5]
  by (simp add: renderCart_def spec_subtotal_def float_sum_def SHIPPING_COST_def toFixed_5 js_def)

text \<open>
  Claim C3, amended. For every cart that is not empty, the subtotal shown is the sum of the
  item totals \<open>price * quantity\<close>, each rounded to two decimal places before it is
  added, and the total shown is that sum plus the shipping cost 5.00, both computed in
  binary64 arithmetic and printed with two decimals. For the cart with the items
  (price 10.00, quantity 2) and (price 3.33, quantity 3) the subtotal shown is 29.99 and the
  total shown is 34.99.
\<close>

theorem totals_nonempty:
  "(c \<noteq> [] \<longrightarrow>
      subtotal_text (renderCart c) = toFixed 2 (spec_subtotal c) \<and>
      total_text (renderCart c) = toFixed 2 (fadd (spec_subtotal c) SHIPPING_COST)) \<and>
   SHIPPING_COST = Fin 5 \<and>
   subtotal_text (renderCart example_cart) = js ''29.99'' \<and>
   total_text (renderCart example_cart) = js ''34.99''"
proof -
  have g: "subtotal_text (renderCart c) = toFixed 2 (spec_subtotal c) \<and>
      total_text (renderCart c) = toFixed 2 (fadd (spec_subtotal c) SHIPPING_COST)" if "c \<noteq> []" for c
    using that by (simp add: renderCart_def Let_def spec_subtotal_def float_sum_def foldl_add_item_total)
  have ne: "example_cart \<noteq> []" by (simp add: example_cart_def)
  show ?thesis
    using g[OF ne] g
    by (simp add: subtotal_example add_2999_5 toFixed_2999 toFixed_3499 SHIPPING_COST_def)
qed

theorem totals_nonempty_witness:
  "example_cart \<noteq> [] \<and>
   subtotal_text (renderCart example_cart) = toFixed 2 (spec_subtotal example_cart) \<and>
   total_text (renderCart example_cart) = toFixed 2 (fadd (spec_subtotal example_cart) SHIPPING_COST)"
proof -
  have "example_cart \<noteq> []" by (simp add: example_cart_def)
  then show ?thesis using totals_nonempty[of example_cart] by blast
qed

section \<open>Numbers written and read back\<close>

lemma is_digit_digit_char: "d < 10 \<Longrightarrow> is_digit (digit_char d)"
  by (simp add: is_digit_def digit_char_def)

lemma dec_digits_digits: "list_all is_digit (dec_digits n)"
proof (induction n rule: dec_digits.induct)
  case (1 n)
  show ?case
  proof (cases "n < 10")
    case True
    then show ?thesis by (subst dec_digits.simps) (simp add: is_digit_digit_char)
  next
    case False
    then show ?thesis using 1 by (subst dec_digits.simps) (simp add: is_digit_digit_char)
  qed
qed

lemma dec_digits_nonempty: "dec_digits n \<noteq> []"
  by (subst dec_digits.simps) simp

lemma digits_val_snoc: "digits_val (ds @ [c]) = 10 * digits_val ds + (c - 48)"
  by (simp add: digits_val_def)

lemma digits_val_Nil: "digits_val [] = 0"
  by (simp add: digits_val_def)

lemma digits_val_append: "digits_val (a @ b) = digits_val a * 10 ^ length b + digits_val b"
proof (induction b rule: rev_induct)
  case Nil
  then show ?case by (simp add: digits_val_Nil)
next
  case (snoc c b)
  have "digits_val (a @ b @ [c]) = 10 * digits_val (a @ b) + (c - 48)"
    using digits_val_snoc[of "a @ b" c] by simp
  then show ?case using snoc by (simp add: digits_val_snoc algebra_simps)
qed

lemma digits_val_zeros: "digits_val (replicate z 48) = 0"
  by (induction z) (simp_all add: digits_val_Nil digits_val_append[of "[48]", simplified] digits_val_def)

lemma digits_val_dec: "digits_val (dec_digits n) = n"
proof (induction n rule: dec_digits.induct)
  case (1 n)
  show ?case
  proof (cases "n < 10")
    case True
    then show ?thesis by (subst dec_digits.simps) (simp add: digits_val_def digit_char_def)
  next
    case False
    then have "digits_val (dec_digits n) = 10 * digits_val (dec_digits (n div 10)) + (digit_char (n mod 10) - 48)"
      by (subst dec_digits.simps) (simp add: digits_val_snoc)
    then show ?thesis using 1 False by (simp add: digit_char_def)
  qed
qed

lemma length_dec_digits:
  "1 \<le> k \<Longrightarrow> 10 ^ (k - 1) \<le> n \<Longrightarrow> n < 10 ^ k \<Longrightarrow> length (dec_digits n) = k"
proof (induction n arbitrary: k rule: dec_digits.induct)
  case (1 n)
  show ?case
  proof (cases "n < 10")
    case True
    have "k = 1"
    proof (rule ccontr)
      assume "k \<noteq> 1"
      then have "2 \<le> k" using 1(2) by simp
      then have "(10::nat) ^ 1 \<le> 10 ^ (k - 1)" by (intro power_increasing) simp_all
      then show False using 1(3) True by simp
    qed
    then show ?thesis using True by (subst dec_digits.simps) simp
  next
    case False
    have k2: "2 \<le> k"
    proof (rule ccontr)
      assume "\<not> 2 \<le> k"
      then have "k = 1" using 1(2) by simp
      then show False using 1(4) False by simp
    qed
    then obtain j where j: "k = Suc j" "1 \<le> j" by (cases k) auto
    have a: "10 ^ (j - 1) \<le> n div 10"
    proof -
      have "10 ^ (j - 1) * 10 \<le> n" using 1(3) j by (cases j) simp_all
      then show ?thesis by (simp add: less_eq_div_iff_mult_less_eq)
    qed
    have b: "n div 10 < 10 ^ j" using 1(4) j by (simp add: less_mult_imp_div_less mult.commute)
    have "length (dec_digits (n div 10)) = j" using 1(1)[OF False j(2) a b] .
    then show ?thesis using False j by (subst dec_digits.simps) simp
  qed
qed

lemma hd_dec_digits: "1 \<le> n \<Longrightarrow> hd (dec_digits n) \<noteq> 48"
proof (induction n rule: dec_digits.induct)
  case (1 n)
  show ?case
  proof (cases "n < 10")
    case True
    then show ?thesis using 1(2) by (subst dec_digits.simps) (simp add: digit_char_def)
  next
    case False
    then have "1 \<le> n div 10" by simp
    then have "hd (dec_digits (n div 10)) \<noteq> 48" using 1(1)[OF False] by simp
    then show ?thesis using False dec_digits_nonempty[of "n div 10"]
      by (subst dec_digits.simps) simp
  qed
qed

lemma delimited_cases:
  assumes "delimited r"
  obtains "r = []" | c r' where "r = c # r'" "c = 44 \<or> c = 93 \<or> c = 125"
  using assms by (cases r) (auto simp: delimited_def)

lemma takeWhile_digits:
  assumes "list_all is_digit ds" "r = [] \<or> \<not> is_digit (hd r)"
  shows "takeWhile is_digit (ds @ r) = ds" "dropWhile is_digit (ds @ r) = r"
proof -
  have a: "\<And>x. x \<in> set ds \<Longrightarrow> is_digit x" using assms(1) by (simp add: list_all_iff)
  have b: "takeWhile is_digit r = []" "dropWhile is_digit r = r"
    using assms(2) by (cases r; simp)+
  show "takeWhile is_digit (ds @ r) = ds" using a b by (simp add: takeWhile_append2)
  show "dropWhile is_digit (ds @ r) = r" using a b by (simp add: dropWhile_append2)
qed

lemma delimited_not_digit: "delimited r \<Longrightarrow> r = [] \<or> \<not> is_digit (hd r)"
  by (erule delimited_cases) (auto simp: is_digit_def)

lemma exponent_part_none: "delimited r \<Longrightarrow> exponent_part r = None"
  by (erule delimited_cases) (auto simp: exponent_part_def)

lemma exponent_part_text:
  assumes "delimited r"
  shows "exponent_part (exponent_text e @ r) = Some (e, r)"
proof -
  define n where "n = nat \<bar>e\<bar>"
  have d: "takeWhile is_digit (dec_digits n @ r) = dec_digits n" "dropWhile is_digit (dec_digits n @ r) = r"
    using takeWhile_digits[OF dec_digits_digits delimited_not_digit[OF assms]] by simp_all
  have t: "exponent_text e = [101, (if 0 \<le> e then 43 else 45)] @ dec_digits n"
    by (simp add: exponent_text_def n_def)
  have v: "(if 0 \<le> e then int n else - int n) = e" by (simp add: n_def)
  show ?thesis
  proof (cases "0 \<le> e")
    case True
    then show ?thesis using v
      by (simp add: t exponent_part_def d dec_digits_nonempty digits_val_dec)
  next
    case False
    then show ?thesis using v
      by (simp add: t exponent_part_def d dec_digits_nonempty digits_val_dec)
  qed
qed

lemma parse_unsigned_plain:
  assumes ip: "ip \<noteq> []" "list_all is_digit ip" "ip = [48] \<or> hd ip \<noteq> 48"
    and fp: "list_all is_digit fp" and r: "delimited rest"
  shows "parse_unsigned neg (ip @ (if fp = [] then [] else 46 # fp) @ rest) =
           Some (signed_number neg (decimal_value ip fp 0), rest)"
proof -
  define X where "X = (if fp = [] then [] else 46 # fp) @ rest"
  obtain c ip' where c: "ip = c # ip'" using ip(1) by (cases ip) auto
  have cd: "is_digit c" using ip(2) c by simp
  have X0: "X = [] \<or> \<not> is_digit (hd X)"
    using delimited_not_digit[OF r] by (auto simp: X_def is_digit_def)
  have tw: "takeWhile is_digit (ip @ X) = ip" using takeWhile_digits(1)[OF ip(2) X0] .
  have ipp: "(if c = 48 then [48] else takeWhile is_digit (c # ip' @ X)) = ip"
    using ip(3) tw c by auto
  have fr: "(case X of [] \<Rightarrow> Some ([], X)
             | c # r \<Rightarrow> if c = 46 then (if takeWhile is_digit r = [] then None
                                       else Some (takeWhile is_digit r, dropWhile is_digit r))
                        else Some ([], X)) = Some (fp, rest)"
  proof (cases "fp = []")
    case True
    then show ?thesis using r by (auto simp: X_def elim!: delimited_cases)
  next
    case False
    then show ?thesis
      using takeWhile_digits[OF fp delimited_not_digit[OF r]] by (simp add: X_def)
  qed
  have ex: "(case rest of [] \<Rightarrow> Some (signed_number neg (decimal_value ip fp 0), rest)
             | c # r \<Rightarrow> if c = 101 \<or> c = 69 then
                  (case exponent_part rest of None \<Rightarrow> None
                   | Some (ex, t4) \<Rightarrow> Some (signed_number neg (decimal_value ip fp ex), t4))
                else Some (signed_number neg (decimal_value ip fp 0), rest))
            = Some (signed_number neg (decimal_value ip fp 0), rest)"
    using r by (auto elim!: delimited_cases)
  have tw': "takeWhile is_digit (c # ip' @ X) = c # ip'"
    using tw by (simp add: c del: takeWhile.simps)
  have ipe: "(case ip @ X of [] \<Rightarrow> [] | c # r \<Rightarrow> if c = 48 then [48] else takeWhile is_digit (ip @ X)) = ip"
  proof (cases "c = 48")
    case True
    then show ?thesis using ip(3) by (simp add: c)
  next
    case False
    then show ?thesis by (simp add: c tw' del: takeWhile.simps)
  qed
  have dr: "drop (length ip) (ip @ X) = X" by simp
  have "parse_unsigned neg (ip @ X) = Some (signed_number neg (decimal_value ip fp 0), rest)"
    unfolding parse_unsigned_def Let_def ipe dr using ip(1) by (simp add: fr ex)
  then show ?thesis by (simp add: X_def)
qed

lemma parse_unsigned_exp:
  assumes ip: "ip \<noteq> []" "list_all is_digit ip" "ip = [48] \<or> hd ip \<noteq> 48"
    and fp: "list_all is_digit fp" and r: "delimited rest"
  shows "parse_unsigned neg (ip @ (if fp = [] then [] else 46 # fp) @ exponent_text e @ rest) =
           Some (signed_number neg (decimal_value ip fp e), rest)"
proof -
  define T where "T = exponent_text e @ rest"
  define X where "X = (if fp = [] then [] else 46 # fp) @ T"
  obtain t' where T: "T = 101 # t'" by (simp add: T_def exponent_text_def)
  obtain c ip' where c: "ip = c # ip'" using ip(1) by (cases ip) auto
  have cd: "is_digit c" using ip(2) c by simp
  have T0: "T = [] \<or> \<not> is_digit (hd T)" by (simp add: T is_digit_def)
  have X0: "X = [] \<or> \<not> is_digit (hd X)" by (auto simp: X_def T is_digit_def)
  have tw: "takeWhile is_digit (ip @ X) = ip" using takeWhile_digits(1)[OF ip(2) X0] .
  have ipp: "(if c = 48 then [48] else takeWhile is_digit (c # ip' @ X)) = ip"
    using ip(3) tw c by auto
  have fr: "(case X of [] \<Rightarrow> Some ([], X)
             | c # r \<Rightarrow> if c = 46 then (if takeWhile is_digit r = [] then None
                                       else Some (takeWhile is_digit r, dropWhile is_digit r))
                        else Some ([], X)) = Some (fp, T)"
  proof (cases "fp = []")
    case True
    then show ?thesis by (simp add: X_def T)
  next
    case False
    then show ?thesis using takeWhile_digits[OF fp T0] by (simp add: X_def)
  qed
  have ep: "exponent_part T = Some (e, rest)" unfolding T_def using r by (rule exponent_part_text)
  have ex: "(case T of [] \<Rightarrow> Some (signed_number neg (decimal_value ip fp 0), T)
             | c # r \<Rightarrow> if c = 101 \<or> c = 69 then
                  (case exponent_part T of None \<Rightarrow> None
                   | Some (ex, t4) \<Rightarrow> Some (signed_number neg (decimal_value ip fp ex), t4))
                else Some (signed_number neg (decimal_value ip fp 0), T))
            = Some (signed_number neg (decimal_value ip fp e), rest)"
    using ep by (simp add: T)
  have tw': "takeWhile is_digit (c # ip' @ X) = c # ip'"
    using tw by (simp add: c del: takeWhile.simps)
  have ipe: "(case ip @ X of [] \<Rightarrow> [] | c # r \<Rightarrow> if c = 48 then [48] else takeWhile is_digit (ip @ X)) = ip"
  proof (cases "c = 48")
    case True
    then show ?thesis using ip(3) by (simp add: c)
  next
    case False
    then show ?thesis by (simp add: c tw' del: takeWhile.simps)
  qed
  have dr: "drop (length ip) (ip @ X) = X" by simp
  have "parse_unsigned neg (ip @ X) = Some (signed_number neg (decimal_value ip fp e), rest)"
    unfolding parse_unsigned_def Let_def ipe dr using ip(1) by (simp add: fr ex)
  then show ?thesis by (simp add: X_def T_def)
qed

lemma list_all_replicate_digit: "list_all is_digit (replicate z 48)"
  by (simp add: list_all_iff is_digit_def)

lemma list_all_take_drop: "list_all P xs \<Longrightarrow> list_all P (take n xs) \<and> list_all P (drop n xs)"
  by (auto simp: list_all_iff dest: in_set_takeD in_set_dropD)

lemma parse_unsigned_format:
  assumes k: "1 \<le> k" and s: "10 ^ (k - 1) \<le> s" "s < 10 ^ k" and r: "delimited rest"
  shows "parse_unsigned neg (format_digits (s, k, n) @ rest) =
           Some (signed_number neg (of_nat s * pow10 (n - int k)), rest)"
proof -
  define ds where "ds = dec_digits s"
  have s1: "1 \<le> s" using s(1) by (metis One_nat_def le_trans one_le_numeral one_le_power)
  have len: "length ds = k" unfolding ds_def using k s by (rule length_dec_digits)
  have dig: "list_all is_digit ds" unfolding ds_def by (rule dec_digits_digits)
  have hd: "hd ds \<noteq> 48" unfolding ds_def using s1 by (rule hd_dec_digits)
  have ne: "ds \<noteq> []" unfolding ds_def by (rule dec_digits_nonempty)
  have val: "digits_val ds = s" unfolding ds_def by (rule digits_val_dec)
  consider (A) "int k \<le> n" "n \<le> 21"
    | (B) "\<not> (int k \<le> n \<and> n \<le> 21)" "0 < n" "n \<le> 21"
    | (C) "\<not> (int k \<le> n \<and> n \<le> 21)" "\<not> (0 < n \<and> n \<le> 21)" "- 6 < n" "n \<le> 0"
    | (D) "\<not> (int k \<le> n \<and> n \<le> 21)" "\<not> (0 < n \<and> n \<le> 21)" "\<not> (- 6 < n \<and> n \<le> 0)"
    by linarith
  then show ?thesis
  proof cases
    case A
    define z where "z = nat n - k"
    have f: "format_digits (s, k, n) = ds @ replicate z 48"
      using A by (simp add: format_digits_def ds_def z_def Let_def)
    have e: "n - int k = int z" using A by (simp add: z_def)
    have "parse_unsigned neg ((ds @ replicate z 48) @ rest) =
        Some (signed_number neg (decimal_value (ds @ replicate z 48) [] 0), rest)"
      using parse_unsigned_plain[of "ds @ replicate z 48" "[]" rest neg] ne dig hd r
      by (simp add: list_all_replicate_digit)
    moreover have "decimal_value (ds @ replicate z 48) [] 0 = of_nat s * pow10 (n - int k)"
      by (simp add: decimal_value_def digits_val_append digits_val_zeros val e pow10_nat pow10_0)
    ultimately show ?thesis by (simp add: f)
  next
    case B
    define m where "m = nat n"
    have mk: "m < k" "0 < m" using B by (simp_all add: m_def)
    have f: "format_digits (s, k, n) = take m ds @ [46] @ drop m ds"
      using B by (simp add: format_digits_def ds_def m_def Let_def)
    have dne: "drop m ds \<noteq> []" using mk len by simp
    have tne: "take m ds \<noteq> []" using mk ne by simp
    have htk: "hd (take m ds) \<noteq> 48" using hd mk by (simp add: hd_take)
    have "parse_unsigned neg (take m ds @ (if drop m ds = [] then [] else 46 # drop m ds) @ rest) =
        Some (signed_number neg (decimal_value (take m ds) (drop m ds) 0), rest)"
      using tne htk r list_all_take_drop[OF dig, of m]
      by (intro parse_unsigned_plain) (simp_all del: take_eq_Nil drop_eq_Nil)
    moreover have "0 - int (length (drop m ds)) = n - int k" using B mk len by (simp add: m_def)
    then have "decimal_value (take m ds) (drop m ds) 0 = of_nat s * pow10 (n - int k)"
      by (simp add: decimal_value_def val)
    ultimately show ?thesis using dne by (simp add: f)
  next
    case C
    define z where "z = nat (- n)"
    have f: "format_digits (s, k, n) = [48] @ [46] @ (replicate z 48 @ ds)"
      using C by (simp add: format_digits_def ds_def z_def Let_def)
    have fne: "replicate z 48 @ ds \<noteq> []" using ne by simp
    have pn: "parse_unsigned neg ([48] @ (if replicate z 48 @ ds = [] then [] else 46 # (replicate z 48 @ ds)) @ rest) =
        Some (signed_number neg (decimal_value [48] (replicate z 48 @ ds) 0), rest)"
      using r dig by (intro parse_unsigned_plain) (simp_all add: list_all_replicate_digit is_digit_def)
    have "0 - int (length (replicate z 48 @ ds)) = n - int k" using C len by (simp add: z_def)
    moreover have "digits_val (replicate (Suc z) 48 @ ds) = s"
      by (simp only: digits_val_append digits_val_zeros val)
    then have "digits_val ([48] @ replicate z 48 @ ds) = s" by simp
    ultimately have "decimal_value [48] (replicate z 48 @ ds) 0 = of_nat s * pow10 (n - int k)"
      by (simp only: decimal_value_def)
    then show ?thesis using ne pn by (simp add: f)
  next
    case D
    define e where "e = n - 1"
    have c1: "(int k \<le> n \<and> n \<le> 21) = False" "(0 < n \<and> n \<le> 21) = False"
      "(- 6 < n \<and> n \<le> 0) = False" using D by simp_all
    have ex: "[101, (if 0 \<le> n - 1 then 43 else 45)] @ dec_digits (nat \<bar>n - 1\<bar>) = exponent_text (n - 1)"
      by (simp add: exponent_text_def)
    have f0: "format_digits (s, k, n) =
        (if k = 1 then dec_digits s @ exponent_text (n - 1)
         else [hd (dec_digits s)] @ [46] @ tl (dec_digits s) @ exponent_text (n - 1))"
      by (simp only: format_digits_def prod.case c1 if_False Let_def ex)
    show ?thesis
    proof (cases "k = 1")
      case True
      have f: "format_digits (s, k, n) = ds @ exponent_text e"
        unfolding f0 ds_def e_def using True by simp
      have "parse_unsigned neg (ds @ exponent_text e @ rest) =
          Some (signed_number neg (decimal_value ds [] e), rest)"
        using parse_unsigned_exp[of ds "[]" rest neg e] ne dig hd r by simp
      moreover have "decimal_value ds [] e = of_nat s * pow10 (n - int k)"
        using True by (simp add: decimal_value_def val e_def)
      ultimately show ?thesis by (simp add: f)
    next
      case False
      have f: "format_digits (s, k, n) = [hd ds] @ [46] @ tl ds @ exponent_text e"
        unfolding f0 ds_def e_def using False by simp
      have tne: "tl ds \<noteq> []" using False k len by (cases ds) auto
      have hdig: "is_digit (hd ds)" using dig ne by (cases ds) auto
      have tdig: "list_all is_digit (tl ds)" using dig ne by (cases ds) auto
      have "parse_unsigned neg ([hd ds] @ (if tl ds = [] then [] else 46 # tl ds) @ exponent_text e @ rest) =
          Some (signed_number neg (decimal_value [hd ds] (tl ds) e), rest)"
        using hd r hdig tdig by (intro parse_unsigned_exp) simp_all
      moreover have "e - int (length (tl ds)) = n - int k" using len k by (simp add: e_def)
      then have "decimal_value [hd ds] (tl ds) e = of_nat s * pow10 (n - int k)"
        using ne by (simp add: decimal_value_def val)
      ultimately show ?thesis using tne by (simp add: f)
    qed
  qed
qed

lemma double_canonical:
  assumes d: "is_double x" and x: "0 < x"
  shows "\<exists>m q. x = of_int m * pow2 q \<and> 0 < m \<and> m < 2 ^ 53 \<and> - 1074 \<le> q \<and>
           (2 ^ 52 \<le> m \<or> q = - 1074) \<and> x < pow2 1024"
proof -
  define q where "q = ulp_exp x"
  define M where "M = round_half_even (x / pow2 q)"
  have p: "0 < pow2 q" by (rule pow2_pos)
  have t: "to_number x = Fin x" using d by (simp add: is_double_def)
  have r: "rnd_pos x = x" and big: "x < pow2 1024"
    using t x by (auto simp: to_number_def Let_def split: if_splits)
  have xe: "x = of_int M * pow2 q" using r by (simp add: rnd_pos_def q_def M_def)
  have "0 < of_int M * pow2 q" using x xe by simp
  then have "(0::rat) < of_int M" using p by (simp add: zero_less_mult_iff)
  then have M0: "0 < M" by simp
  note B = ilog2_bounds[OF x]
  have p52: "pow2 (52 + q) = 2 ^ 52 * pow2 q" by (simp add: pow2_add pow2_numeral)
  have p53: "pow2 (53 + q) = 2 ^ 53 * pow2 q" by (simp add: pow2_add pow2_numeral)
  have q74: "- 1074 \<le> q" by (simp add: q_def ulp_exp_def)
  show ?thesis
  proof (cases "- 1022 \<le> ilog2 x")
    case True
    then have qe: "ilog2 x = 52 + q" by (simp add: q_def ulp_exp_def)
    have "2 ^ 52 * pow2 q \<le> x" using B by (simp add: qe p52)
    then have "2 ^ 52 * pow2 q \<le> of_int M * pow2 q" using xe by simp
    then have "(2 ^ 52 :: rat) \<le> of_int M" using p by simp
    then have lo: "2 ^ 52 \<le> M" by (metis of_int_le_iff of_int_numeral of_int_power)
    have "ilog2 x + 1 = 53 + q" using qe by simp
    then have "x < 2 ^ 53 * pow2 q" using B by (simp add: p53)
    then have "of_int M * pow2 q < 2 ^ 53 * pow2 q" using xe by simp
    then have "(of_int M :: rat) < 2 ^ 53" using p by simp
    then have hi: "M < 2 ^ 53" by (metis of_int_less_iff of_int_numeral of_int_power)
    show ?thesis using xe M0 lo hi q74 big by blast
  next
    case False
    then have qe: "q = - 1074" by (simp add: q_def ulp_exp_def)
    have "pow2 (ilog2 x + 1) \<le> pow2 (- 1022)" using False by (intro pow2_mono) simp
    then have "x < pow2 (- 1022)" using B by simp
    moreover have "pow2 (- 1022) = 2 ^ 52 * pow2 q" using p52 by (simp add: qe)
    ultimately have "x < 2 ^ 52 * pow2 q" by simp
    then have "of_int M * pow2 q < 2 ^ 52 * pow2 q" using xe by simp
    then have "(of_int M :: rat) < 2 ^ 52" using p by simp
    then have "M < 2 ^ 52" by (metis of_int_less_iff of_int_numeral of_int_power)
    then have hi: "M < 2 ^ 53" by simp
    show ?thesis using xe M0 hi qe big by blast
  qed
qed

lemma seventeen_digits:
  assumes d: "is_double x" and x: "0 < x" and y: "0 < y" and near: "\<bar>y - x\<bar> \<le> x / (2 * 10 ^ 16)"
  shows "to_number y = Fin x"
proof -
  from double_canonical[OF d x] obtain m q where
    c: "x = of_int m * pow2 q" "0 < m" "m < 2 ^ 53" "- 1074 \<le> q" "2 ^ 52 \<le> m \<or> q = - 1074"
       "x < pow2 1024" by blast
  have p: "0 < pow2 q" by (rule pow2_pos)
  have "(of_int m :: rat) < of_int (2 ^ 53)" using c(3) by (simp only: of_int_less_iff)
  then have xb: "x < 2 ^ 53 * pow2 q" using p by (simp add: c(1))
  define D where "D = x / (2 * 10 ^ 16)"
  have near': "\<bar>y - x\<bar> \<le> D" using near by (simp add: D_def)
  have h: "D < pow2 q / 2" using xb p by (simp add: D_def)
  have up0: "y - x < pow2 q / 2" using near' h by linarith
  have dn0': "x - y < pow2 q / 2" using near' h by linarith
  have up: "y - of_int m * pow2 q < pow2 q / 2" using up0 by (simp add: c(1)[symmetric])
  have dn0: "of_int m * pow2 q - y < pow2 q / 2" using dn0' by (simp add: c(1)[symmetric])
  have dn: "of_int m * pow2 q - y < (if m = 2 ^ 52 \<and> - 1074 < q then pow2 q / 4 else pow2 q / 2)"
  proof (cases "m = 2 ^ 52 \<and> - 1074 < q")
    case True
    then have "x = 2 ^ 52 * pow2 q" by (simp add: c(1))
    then have "D < pow2 q / 4" using p by (simp add: D_def)
    then have "x - y < pow2 q / 4" using near' by linarith
    then have "of_int m * pow2 q - y < pow2 q / 4" by (simp add: c(1)[symmetric])
    then show ?thesis using True by simp
  next
    case False
    then show ?thesis using dn0 by auto
  qed
  have "rnd_pos y = of_int m * pow2 q" using c(2,3,4,5) y up dn by (rule rnd_pos_near)
  then show ?thesis using y c(6) by (simp add: to_number_def c(1)[symmetric])
qed

lemma pow10_pos: "0 < pow10 e"
  by (simp add: pow10_def bpow_pos)

lemma pow10_add: "pow10 (m + n) = pow10 m * pow10 n"
  by (simp add: pow10_def bpow_add)

lemma pow10_diff: "pow10 (m - n) = pow10 m / pow10 n"
  by (simp add: pow10_def bpow_diff)

lemma ilog10_bounds: "0 < x \<Longrightarrow> pow10 (ilog10 x) \<le> x \<and> x < pow10 (ilog10 x + 1)"
  unfolding ilog10_def pow10_def by (rule ilog_bounds) auto

lemma grid:
  assumes x: "0 < x" and k: "1 \<le> k"
  defines "u \<equiv> pow10 (ilog10 x + 1 - int k)"
  defines "lo \<equiv> nat \<lfloor>x / u\<rfloor>"
  shows "10 ^ (k - 1) \<le> lo" "lo < 10 ^ k" "of_nat lo * u \<le> x" "x < (of_nat lo + 1) * u" "0 < u"
proof -
  show u0: "0 < u" by (simp add: u_def pow10_pos)
  note B = ilog10_bounds[OF x]
  have e1: "pow10 (ilog10 x) = 10 ^ (k - 1) * u"
  proof -
    have "ilog10 x = int (k - 1) + (ilog10 x + 1 - int k)" using k by simp
    then have "pow10 (ilog10 x) = pow10 (int (k - 1)) * pow10 (ilog10 x + 1 - int k)"
      by (metis pow10_add)
    then show ?thesis by (simp add: u_def pow10_nat)
  qed
  have e2: "pow10 (ilog10 x + 1) = 10 ^ k * u"
  proof -
    have "ilog10 x + 1 = int k + (ilog10 x + 1 - int k)" by simp
    then have "pow10 (ilog10 x + 1) = pow10 (int k) * pow10 (ilog10 x + 1 - int k)"
      by (metis pow10_add)
    then show ?thesis by (simp add: u_def pow10_nat)
  qed
  have q1: "10 ^ (k - 1) \<le> x / u" using B u0 by (simp add: e1 pos_le_divide_eq)
  have q2: "x / u < 10 ^ k" using B u0 by (simp add: e2 pos_divide_less_eq)
  have q0: "0 \<le> x / u" using x u0 by simp
  have f0: "0 \<le> \<lfloor>x / u\<rfloor>" using q0 by simp
  have lo: "int lo = \<lfloor>x / u\<rfloor>" using f0 by (simp add: lo_def)
  have "(of_int (10 ^ (k - 1)) :: rat) \<le> x / u" using q1 by simp
  then have "10 ^ (k - 1) \<le> \<lfloor>x / u\<rfloor>" by (simp only: le_floor_iff)
  then have "int (10 ^ (k - 1)) \<le> int lo" by (simp add: lo)
  then show "10 ^ (k - 1) \<le> lo" by (simp only: of_nat_le_iff)
  have "x / u < of_int (10 ^ k)" using q2 by simp
  then have "\<lfloor>x / u\<rfloor> < 10 ^ k" by (simp only: floor_less_iff)
  then have "int lo < int (10 ^ k)" by (simp add: lo)
  then show "lo < 10 ^ k" by (simp only: of_nat_less_iff)
  have fl: "of_int \<lfloor>x / u\<rfloor> \<le> x / u" "x / u < of_int \<lfloor>x / u\<rfloor> + 1" by linarith+
  have rl: "(of_nat lo :: rat) = of_int \<lfloor>x / u\<rfloor>" using lo by (metis of_int_of_nat_eq)
  have xu: "x / u * u = x" using u0 by simp
  have "of_int \<lfloor>x / u\<rfloor> * u \<le> x / u * u"
    using u0 by (intro mult_right_mono) simp_all
  then show "of_nat lo * u \<le> x" by (simp only: rl xu)
  have "x / u * u < (of_int \<lfloor>x / u\<rfloor> + 1) * u"
    using u0 fl(2) by (intro mult_strict_right_mono)
  then show "x < (of_nat lo + 1) * u" by (simp only: rl xu)
qed

lemma nearest_props:
  assumes lo: "of_nat (nat \<lfloor>x / u\<rfloor>) * u \<le> x" "x < (of_nat (nat \<lfloor>x / u\<rfloor>) + 1) * u"
  shows "(nearest x u = nat \<lfloor>x / u\<rfloor> \<or> nearest x u = nat \<lfloor>x / u\<rfloor> + 1) \<and>
         \<bar>of_nat (nearest x u) * u - x\<bar> \<le> u / 2"
proof -
  define l where "l = nat \<lfloor>x / u\<rfloor>"
  define dl where "dl = x - of_nat l * u"
  define dh where "dh = of_nat (l + 1) * u - x"
  have s: "dl + dh = u" by (simp add: dl_def dh_def algebra_simps)
  have d0: "0 \<le> dl" "0 < dh" using lo by (simp_all add: dl_def dh_def l_def algebra_simps)
  have n: "nearest x u = (if dl < dh then l else if dh < dl then l + 1 else if even l then l else l + 1)"
    by (simp add: nearest_def Let_def l_def dl_def dh_def)
  have a: "\<bar>of_nat l * u - x\<bar> = dl" using d0 by (simp add: dl_def)
  have b: "\<bar>of_nat (l + 1) * u - x\<bar> = dh" using d0 by (simp add: dh_def)
  consider "dl < dh" | "dh < dl" | "dl = dh" by linarith
  then show ?thesis
  proof cases
    case 1
    then have "nearest x u = l" by (simp add: n)
    moreover have "dl \<le> u / 2" using 1 s by linarith
    ultimately show ?thesis using a by (simp add: l_def)
  next
    case 2
    then have "nearest x u = l + 1" by (simp add: n)
    moreover have "dh \<le> u / 2" using 2 s by linarith
    ultimately show ?thesis using b by (simp add: l_def)
  next
    case 3
    then have h: "dl \<le> u / 2" "dh \<le> u / 2" using s by linarith+
    have "nearest x u = l \<or> nearest x u = l + 1" using 3 by (simp add: n)
    then show ?thesis using h a b by (auto simp: l_def)
  qed
qed

lemma candidate_some:
  assumes "candidate x n0 k = Some s"
  shows "to_number (of_nat s * pow10 (n0 - int k)) = Fin x \<and>
         (s = nat \<lfloor>x / pow10 (n0 - int k)\<rfloor> \<or> s = nat \<lfloor>x / pow10 (n0 - int k)\<rfloor> + 1)"
proof -
  define u where "u = pow10 (n0 - int k)"
  define l where "l = nat \<lfloor>x / u\<rfloor>"
  have n: "nearest x u = l \<or> nearest x u = l + 1"
    by (auto simp: nearest_def Let_def l_def)
  show ?thesis using assms n
    unfolding candidate_def u_def[symmetric] Let_def l_def[symmetric]
    by (auto split: if_splits)
qed

lemma shortest_cases:
  assumes "shortest x n0 ks = (s, k)"
  shows "(k \<in> set ks \<and> candidate x n0 k = Some s) \<or> (k = 17 \<and> s = nearest x (pow10 (n0 - 17)))"
  using assms by (induction ks) (auto split: option.splits)

lemma digits_of_ok:
  assumes d: "is_double x" and x: "0 < x" and e: "digits_of x = (s, k, n)"
  shows "1 \<le> k \<and> 10 ^ (k - 1) \<le> s \<and> s < 10 ^ k \<and>
         to_number (of_nat s * pow10 (n - int k)) = Fin x"
proof -
  define n0 where "n0 = ilog10 x + 1"
  obtain s0 k0 where sh: "shortest x n0 [1 ..< 17] = (s0, k0)" by (cases "shortest x n0 [1 ..< 17]")
  define u where "u = pow10 (n0 - int k0)"
  define lo where "lo = nat \<lfloor>x / u\<rfloor>"
  have k0: "1 \<le> k0" using shortest_cases[OF sh] by auto
  note G = grid[OF x k0, folded n0_def, folded u_def, folded lo_def]
  have P: "(s0 = lo \<or> s0 = lo + 1) \<and> to_number (of_nat s0 * u) = Fin x"
    using shortest_cases[OF sh]
  proof
    assume "k0 \<in> set [1 ..< 17] \<and> candidate x n0 k0 = Some s0"
    then show ?thesis using candidate_some[of x n0 k0 s0] by (simp add: u_def lo_def)
  next
    assume a: "k0 = 17 \<and> s0 = nearest x (pow10 (n0 - 17))"
    then have s0: "s0 = nearest x u" by (simp add: u_def)
    note N = nearest_props[OF G(3,4)[unfolded lo_def], folded s0, folded lo_def]
    have "10 ^ 16 * u \<le> of_nat lo * u"
    proof -
      have "(of_nat (10 ^ (k0 - 1)) :: rat) \<le> of_nat lo" using G(1) by (simp only: of_nat_le_iff)
      then have "(10 ^ 16 :: rat) \<le> of_nat lo" using a by simp
      then show ?thesis using G(5) by (simp add: mult_right_mono less_imp_le)
    qed
    then have xu: "10 ^ 16 * u \<le> x" using G(3) by simp
    then have h: "u / 2 \<le> x / (2 * 10 ^ 16)" by simp
    have slo: "lo \<le> s0" using N by auto
    have "0 < lo" using G(1) by (metis less_le_trans zero_less_numeral zero_less_power)
    then have "0 < s0" using slo by simp
    then have y: "0 < of_nat s0 * u" using G(5) by simp
    have "\<bar>of_nat s0 * u - x\<bar> \<le> x / (2 * 10 ^ 16)" using N h by linarith
    then have "to_number (of_nat s0 * u) = Fin x" using d x y by (intro seventeen_digits)
    then show ?thesis using N by simp
  qed
  have b: "10 ^ (k0 - 1) \<le> s0" "s0 \<le> 10 ^ k0" using P G(1,2) by auto
  have de: "digits_of x = (if s0 = 10 ^ k0 then (10 ^ (k0 - 1), k0, n0 + 1) else (s0, k0, n0))"
    unfolding digits_of_def n0_def[symmetric] Let_def sh by simp
  show ?thesis
  proof (cases "s0 = 10 ^ k0")
    case True
    then have "digits_of x = (10 ^ (k0 - 1), k0, n0 + 1)" unfolding de by simp
    then have r: "s = 10 ^ (k0 - 1)" "k = k0" "n = n0 + 1" unfolding e by blast+
    have "pow10 (n0 + 1 - int k0) = pow10 1 * pow10 (n0 - int k0)"
      by (metis pow10_add add.commute add_diff_eq)
    then have "of_nat (10 ^ (k0 - 1)) * pow10 (n0 + 1 - int k0) = (10 ^ (k0 - 1) * 10) * u"
      by (simp add: u_def pow10_def bpow_def)
    also have "(10 ^ (k0 - 1) * 10 :: rat) = 10 ^ k0" using k0 by (cases k0) simp_all
    finally have "of_nat (10 ^ (k0 - 1)) * pow10 (n0 + 1 - int k0) = of_nat s0 * u"
      using True by simp
    then have "to_number (of_nat s * pow10 (n - int k)) = Fin x" using P by (simp add: r)
    moreover have "(10::nat) ^ (k0 - 1) < 10 ^ k0" using k0 by (intro power_strict_increasing) simp_all
    ultimately show ?thesis using k0 by (simp add: r)
  next
    case False
    then have "digits_of x = (s0, k0, n0)" unfolding de by simp
    then have r: "s = s0" "k = k0" "n = n0" unfolding e by blast+
    have "s0 < 10 ^ k0" using b False by simp
    then show ?thesis using k0 b P by (simp add: r u_def)
  qed
qed

lemma format_digits_head:
  "\<exists>c t. format_digits (s, k, n) = c # t \<and> is_digit c"
proof -
  define ds where "ds = dec_digits s"
  have ne: "ds \<noteq> []" unfolding ds_def by (rule dec_digits_nonempty)
  have hd: "is_digit (hd ds)" using dec_digits_digits[of s] ne by (cases ds) (auto simp: ds_def)
  have "format_digits (s, k, n) \<noteq> [] \<and> is_digit (hd (format_digits (s, k, n)))"
  proof (cases "0 < n \<and> n \<le> 21 \<and> \<not> int k \<le> n")
    case True
    then have "0 < nat n" by simp
    then have "take (nat n) ds \<noteq> [] \<and> hd (take (nat n) ds) = hd ds"
      using ne by (simp add: hd_take)
    then show ?thesis using True hd
      by (simp add: format_digits_def Let_def ds_def[symmetric] del: take_eq_Nil)
  next
    case False
    then show ?thesis using ne hd
      by (auto simp: format_digits_def Let_def ds_def[symmetric] is_digit_def)
  qed
  then show ?thesis by (cases "format_digits (s, k, n)") auto
qed

lemma to_number_minus: "to_number (- y) = (case to_number y of Fin r \<Rightarrow> Fin (- r) | PInf \<Rightarrow> NInf | NInf \<Rightarrow> PInf | NaN \<Rightarrow> NaN)"
  by (simp add: to_number_def Let_def)

lemma is_double_minus: "is_double x \<Longrightarrow> is_double (- x)"
  by (simp add: is_double_def to_number_minus)

lemma parse_positive:
  assumes d: "is_double x" and x: "0 < x" and r: "delimited rest"
  shows "parse_unsigned neg (format_digits (digits_of x) @ rest) =
           Some (if neg then Fin (- x) else Fin x, rest)"
proof -
  obtain s k n where e: "digits_of x = (s, k, n)" by (cases "digits_of x")
  note D = digits_of_ok[OF d x e]
  have "parse_unsigned neg (format_digits (s, k, n) @ rest) =
      Some (signed_number neg (of_nat s * pow10 (n - int k)), rest)"
    using D r by (intro parse_unsigned_format) simp_all
  moreover have "signed_number neg (of_nat s * pow10 (n - int k)) = (if neg then Fin (- x) else Fin x)"
    using D by (simp add: signed_number_def to_number_minus)
  ultimately show ?thesis by (simp add: e)
qed

lemma format_digits_of_head:
  assumes d: "is_double x" and x: "0 < x"
  shows "\<exists>c t. format_digits (digits_of x) = c # t \<and> is_digit c"
proof -
  obtain s k n where e: "digits_of x = (s, k, n)" by (cases "digits_of x")
  note D = digits_of_ok[OF d x e]
  show ?thesis unfolding e by (rule format_digits_head)
qed

lemma parse_Number_toString:
  assumes d: "is_double x" and r: "delimited rest"
  shows "parse_number (Number_toString (Fin x) @ rest) = Some (Fin x, rest)"
proof -
  consider "x = 0" | "0 < x" | "x < 0" by linarith
  then show ?thesis
  proof cases
    case 1
    have "parse_unsigned False ([48] @ rest) = Some (signed_number False (decimal_value [48] [] 0), rest)"
      using parse_unsigned_plain[of "[48]" "[]" rest False] r by (simp add: is_digit_def)
    then show ?thesis
      by (simp add: 1 js_def parse_number_def signed_number_def decimal_value_def digits_val_def
          to_number_def)
  next
    case 2
    from format_digits_of_head[OF d 2] obtain c t where
      h: "format_digits (digits_of x) = c # t" "is_digit c" by blast
    have "c \<noteq> 45" using h(2) by (auto simp: is_digit_def)
    then have "parse_number (format_digits (digits_of x) @ rest) =
        parse_unsigned False (format_digits (digits_of x) @ rest)"
      by (simp add: parse_number_def h(1))
    then show ?thesis using parse_positive[OF d 2 r, of False] 2 by simp
  next
    case 3
    then have p: "0 < - x" by simp
    have "parse_number ([45] @ format_digits (digits_of (- x)) @ rest) =
        parse_unsigned True (format_digits (digits_of (- x)) @ rest)"
      by (simp add: parse_number_def)
    then show ?thesis using parse_positive[OF is_double_minus[OF d] p r, of True] 3 by simp
  qed
qed

lemma Number_toString_head:
  assumes d: "is_double x"
  shows "\<exists>c t. Number_toString (Fin x) = c # t \<and> (c = 45 \<or> is_digit c)"
proof -
  consider "x = 0" | "0 < x" | "x < 0" by linarith
  then show ?thesis
  proof cases
    case 1
    then show ?thesis by (simp add: js_def is_digit_def)
  next
    case 2
    then show ?thesis using format_digits_of_head[OF d 2] by auto
  next
    case 3
    then show ?thesis by simp
  qed
qed

section \<open>JSON text written and read back\<close>

lemma hex_val_hex_char: "d < 16 \<Longrightarrow> hex_val (hex_char d) = Some d"
  by (auto simp: hex_val_def hex_char_def)

lemma hex_digits_sum:
  assumes "c < 65536"
  shows "4096 * (c div 4096 mod 16) + 256 * (c div 256 mod 16) + 16 * (c div 16 mod 16) + c mod 16 = (c::nat)"
proof -
  have a: "c div 4096 mod 16 = c div 4096" using assms by simp
  have b: "c div 256 = 16 * (c div 4096) + c div 256 mod 16"
    using div_mult2_eq[of c 256 16] by simp
  have d: "c div 16 = 16 * (c div 256) + c div 16 mod 16"
    using div_mult2_eq[of c 16 16] by simp
  have e: "c = 16 * (c div 16) + c mod 16" by simp
  show ?thesis using a b d e by linarith
qed

lemma parse_escape_hex:
  assumes "a < 16" "b < 16" "c < 16" "d < 16"
  shows "parse_escape ([117, hex_char a, hex_char b, hex_char c, hex_char d] @ r) =
           Some (4096 * a + 256 * b + 16 * c + d, r)"
  using assms by (simp add: parse_escape_def hex_val_hex_char)

lemma parse_escape_unicode:
  assumes "c < 65536"
  shows "parse_escape ([117, hex_char (c div 4096 mod 16), hex_char (c div 256 mod 16),
            hex_char (c div 16 mod 16), hex_char (c mod 16)] @ r) = Some (c, r)"
  by (subst parse_escape_hex) (simp_all only: hex_digits_sum[OF assms] mod_less_divisor zero_less_numeral)

lemma parse_chars_literal:
  assumes "c \<noteq> 34" "c \<noteq> 92" "32 \<le> c"
  shows "parse_chars (Suc m) (c # t) =
           (case parse_chars m t of None \<Rightarrow> None | Some (u, r') \<Rightarrow> Some (c # u, r'))"
  using assms by simp

lemma parse_chars_unit:
  "parse_chars (Suc m) (quote_unit c @ t) =
     (case parse_chars m t of None \<Rightarrow> None | Some (u, r') \<Rightarrow> Some (c # u, r'))"
proof -
  consider (esc) "c = 8 \<or> c = 9 \<or> c = 10 \<or> c = 12 \<or> c = 13 \<or> c = 34 \<or> c = 92"
    | (uni) "\<not> (c = 8 \<or> c = 9 \<or> c = 10 \<or> c = 12 \<or> c = 13 \<or> c = 34 \<or> c = 92)"
        "c < 32 \<or> is_high_surrogate c \<or> is_low_surrogate c"
    | (lit) "\<not> (c = 8 \<or> c = 9 \<or> c = 10 \<or> c = 12 \<or> c = 13 \<or> c = 34 \<or> c = 92)"
        "\<not> (c < 32 \<or> is_high_surrogate c \<or> is_low_surrogate c)"
    by blast
  then show ?thesis
  proof cases
    case esc
    then show ?thesis by (auto simp: quote_unit_def parse_escape_def)
  next
    case uni
    then have c: "c < 65536" by (auto simp: is_high_surrogate_def is_low_surrogate_def)
    have q: "quote_unit c = 92 # [117, hex_char (c div 4096 mod 16), hex_char (c div 256 mod 16),
            hex_char (c div 16 mod 16), hex_char (c mod 16)]"
      using uni by (simp add: quote_unit_def unicode_escape_def)
    show ?thesis
      unfolding q using parse_escape_unicode[OF c, of t] by simp
  next
    case lit
    then have q: "quote_unit c = [c]" by (simp add: quote_unit_def)
    show ?thesis unfolding q using lit by (simp add: parse_chars_literal)
  qed
qed

lemma quote_unit_length: "1 \<le> length (quote_unit c)"
  by (simp add: quote_unit_def unicode_escape_def)

lemma quote_units_length: "length s \<le> length (quote_units s)"
proof (induction s rule: quote_units.induct)
  case 1
  then show ?case by simp
next
  case (2 c)
  then show ?case using quote_unit_length[of c] by simp
next
  case (3 c d cs)
  then show ?case using quote_unit_length[of c] by (auto split: if_splits)
qed

lemma parse_chars_quote_units:
  "length s < n \<Longrightarrow> parse_chars n (quote_units s @ 34 # rest) = Some (s, rest)"
proof (induction s arbitrary: n rule: quote_units.induct)
  case 1
  then obtain m where "n = Suc m" by (cases n) auto
  then show ?case by simp
next
  case (2 c)
  then obtain m where n: "n = Suc (Suc m)" by (cases n; cases "n - 1") auto
  have e: "parse_chars (Suc m) (34 # rest) = Some ([], rest)" by simp
  have qs: "quote_units [c] = quote_unit c" by simp
  show ?case unfolding n qs
    by (simp only: parse_chars_unit e option.case prod.case)
next
  case (3 c d cs)
  then obtain m where n: "n = Suc (Suc m)" "length cs < m" by (cases n; cases "n - 1") auto
  show ?case
  proof (cases "is_high_surrogate c \<and> is_low_surrogate d")
    case True
    then have l: "c \<noteq> 34" "c \<noteq> 92" "32 \<le> c" "d \<noteq> 34" "d \<noteq> 92" "32 \<le> d"
      by (auto simp: is_high_surrogate_def is_low_surrogate_def)
    have ih: "parse_chars m (quote_units cs @ 34 # rest) = Some (cs, rest)"
      using 3(1)[OF True n(2)] .
    have qs: "quote_units (c # d # cs) @ 34 # rest = c # d # (quote_units cs @ 34 # rest)"
      using True by simp
    show ?thesis unfolding n qs
      by (simp only: parse_chars_literal[OF l(1,2,3)] parse_chars_literal[OF l(4,5,6)] ih
          option.case prod.case)
  next
    case False
    have "length (d # cs) < Suc m" using n(2) by simp
    then have ih: "parse_chars (Suc m) (quote_units (d # cs) @ 34 # rest) = Some (d # cs, rest)"
      using 3(2)[OF False] by blast
    have "quote_units (c # d # cs) = quote_unit c @ quote_units (d # cs)"
      using False by (simp only: quote_units.simps if_False)
    then have qs: "quote_units (c # d # cs) @ 34 # rest = quote_unit c @ (quote_units (d # cs) @ 34 # rest)"
      by (simp only: append_assoc)
    show ?thesis unfolding n qs
      by (simp only: parse_chars_unit ih option.case prod.case)
  qed
qed

lemma parse_string_quoted:
  "parse_string (quote_units s @ 34 # rest) = Some (s, rest)"
  unfolding parse_string_def
  by (rule parse_chars_quote_units) (use quote_units_length[of s] in simp)

lemma skip_ws_start: "value_start c \<Longrightarrow> skip_ws (c # t) = c # t"
  by (auto simp: skip_ws_def is_json_ws_def value_start_def is_digit_def)

lemma skip_ws_delimited: "delimited r \<Longrightarrow> skip_ws r = r"
  by (erule delimited_cases) (auto simp: skip_ws_def is_json_ws_def)

lemma stringify_head:
  assumes "plain v"
  shows "\<exists>c t. JSON_stringify v = c # t \<and> value_start c"
proof (cases v)
  case (JNum x)
  show ?thesis
  proof (cases x)
    case (Fin r)
    then have "is_double r" using assms JNum by simp
    from Number_toString_head[OF this] show ?thesis
      using JNum Fin by (auto simp: value_start_def)
  qed (simp_all add: JNum js_def value_start_def)
qed (auto simp: js_def value_start_def QuoteJSONString_def)

lemma stringify_obj: "JSON_stringify (JObj ps) = [123] @ join_with [44] (map member_text ps) @ [125]"
proof -
  have "(\<lambda>(k, v). QuoteJSONString k @ [58] @ JSON_stringify v) = member_text"
    by (auto simp: member_text_def fun_eq_iff)
  then show ?thesis by simp
qed

lemma elements_step:
  assumes "parse_value m (tv @ R) = Inr (sv, R)" "delimited R"
  shows "parse_elements (Suc m) acc (tv @ R) =
     (case R of [] \<Rightarrow> Inl SyntaxError
      | c # r' \<Rightarrow> if c = 93 then Inr (JArr (acc @ [sv]), r')
                  else if c = 44 then parse_elements m (acc @ [sv]) (skip_ws r')
                  else Inl SyntaxError)"
  using assms by (simp add: skip_ws_delimited)

lemma skip_ws_colon: "skip_ws (58 # t) = 58 # t"
  by (simp add: skip_ws_def is_json_ws_def)

lemma members_step:
  assumes v: "parse_value m (tv @ R) = Inr (sv, R)" and h: "\<exists>c t. tv = c # t \<and> value_start c"
    and R: "delimited R"
  shows "parse_members (Suc m) acc (QuoteJSONString k @ [58] @ tv @ R) =
     (case R of [] \<Rightarrow> Inl SyntaxError
      | d # r4 \<Rightarrow> if d = 125 then Inr (JObj (put_property k sv acc), r4)
                  else if d = 44 then parse_members m (put_property k sv acc) (skip_ws r4)
                  else Inl SyntaxError)"
proof -
  obtain c t where tv: "tv = c # t" "value_start c" using h by blast
  have sk: "skip_ws (tv @ R) = tv @ R" using tv by (simp add: skip_ws_start)
  have ps: "parse_string (quote_units k @ 34 # (58 # tv @ R)) = Some (k, 58 # tv @ R)"
    by (rule parse_string_quoted)
  have e: "QuoteJSONString k @ [58] @ tv @ R = 34 # (quote_units k @ 34 # (58 # tv @ R))"
    by (simp add: QuoteJSONString_def)
  show ?thesis unfolding e
    by (simp only: parse_members.simps list.case refl if_False not_not ps option.case prod.case
        skip_ws_colon sk v sum.case skip_ws_delimited[OF R] not_True_eq_False)
qed

lemma value_array:
  assumes "value_start c"
  shows "parse_value (Suc n) (91 # c # t) = parse_elements n [] (c # t)"
proof -
  have "c \<noteq> 93" using assms by (auto simp: value_start_def is_digit_def)
  then show ?thesis using assms by (simp add: skip_ws_start)
qed

lemma value_object:
  "parse_value (Suc n) (123 # 34 # t) = parse_members n [] (34 # t)"
proof -
  have "value_start 34" by (simp add: value_start_def)
  then have "skip_ws (34 # t) = 34 # t" by (rule skip_ws_start)
  then show ?thesis by simp
qed

lemma join_head:
  assumes "xs \<noteq> []" "\<exists>c t. hd xs = c # t \<and> value_start c"
  shows "\<exists>c t. join_with sep xs @ r = c # t \<and> value_start c"
proof -
  obtain x ys where xs: "xs = x # ys" using assms(1) by (cases xs) auto
  obtain c t where x: "x = c # t" "value_start c" using assms(2) xs by auto
  show ?thesis using x xs by (cases ys) auto
qed

lemma put_property_fresh:
  assumes "k \<notin> fst ` set acc" "array_index k = None"
  shows "put_property k v acc = acc @ [(k, v)]"
  using assms by (simp add: put_property_def)

lemma reads_backD:
  "reads_back v \<Longrightarrow> plain v \<Longrightarrow> delimited rest \<Longrightarrow> 2 * length (JSON_stringify v @ rest) < f \<Longrightarrow>
     parse_value f (JSON_stringify v @ rest) = Inr (sanitize v, rest)"
  by (simp add: reads_back_def)

lemma delimited_simps: "delimited (93 # r)" "delimited (44 # r)" "delimited (125 # r)" "delimited []"
  by (simp_all add: delimited_def)

lemma parse_elements_join:
  assumes "\<And>v. v \<in> set vs \<Longrightarrow> reads_back v"
    and "vs \<noteq> []" "list_all plain vs"
    and "2 * length (join_with [44] (map JSON_stringify vs) @ 93 # rest) + 1 < n"
  shows "parse_elements n acc (join_with [44] (map JSON_stringify vs) @ 93 # rest) =
           Inr (JArr (acc @ map sanitize vs), rest)"
  using assms
proof (induction vs arbitrary: n acc)
  case Nil
  then show ?case by simp
next
  case (Cons v vs)
  obtain m where n: "n = Suc m" using Cons.prems(4) by (cases n) auto
  have rb: "reads_back v" and pv: "plain v" using Cons.prems by simp_all
  show ?case
  proof (cases vs)
    case Nil
    have f: "2 * length (JSON_stringify v @ 93 # rest) < m" using Cons.prems(4) n Nil by simp
    have pvl: "parse_value m (JSON_stringify v @ 93 # rest) = Inr (sanitize v, 93 # rest)"
      using reads_backD[OF rb pv delimited_simps(1) f] .
    show ?thesis unfolding n using elements_step[OF pvl delimited_simps(1), of acc] Nil by simp
  next
    case (Cons w ws)
    define T where "T = join_with [44] (map JSON_stringify vs) @ 93 # rest"
    have e: "join_with [44] (map JSON_stringify (v # vs)) @ 93 # rest = JSON_stringify v @ 44 # T"
      by (simp add: Cons T_def)
    have f: "2 * length (JSON_stringify v @ 44 # T) < m" using Cons.prems(4) unfolding e n by simp
    have pvl: "parse_value m (JSON_stringify v @ 44 # T) = Inr (sanitize v, 44 # T)"
      using reads_backD[OF rb pv delimited_simps(2) f] .
    have "plain w" using Cons.prems(3) Cons by simp
    from stringify_head[OF this] have "\<exists>c t. hd (map JSON_stringify vs) = c # t \<and> value_start c"
      using Cons by simp
    then obtain c t where h: "T = c # t" "value_start c"
      using join_head[of "map JSON_stringify vs" "[44]" "93 # rest"] Cons by (auto simp: T_def)
    have sk: "skip_ws T = T" using h by (simp add: skip_ws_start)
    have f2: "2 * length T + 1 < m" using f by simp
    have ih: "parse_elements m (acc @ [sanitize v]) T = Inr (JArr ((acc @ [sanitize v]) @ map sanitize vs), rest)"
      unfolding T_def using Cons.prems Cons f2
      by (intro Cons.IH) (simp_all add: T_def)
    show ?thesis unfolding n e using elements_step[OF pvl delimited_simps(2), of acc] ih
      by (simp add: sk)
  qed
qed

lemma parse_members_join:
  assumes "\<And>p. p \<in> set ps \<Longrightarrow> reads_back (snd p)"
    and "ps \<noteq> []" "list_all (\<lambda>p. plain (snd p)) ps"
    and "distinct (map fst acc @ map fst ps)" "list_all (\<lambda>p. array_index (fst p) = None) ps"
    and "2 * length (join_with [44] (map member_text ps) @ 125 # rest) + 1 < n"
  shows "parse_members n acc (join_with [44] (map member_text ps) @ 125 # rest) =
           Inr (JObj (acc @ map (\<lambda>p. (fst p, sanitize (snd p))) ps), rest)"
  using assms
proof (induction ps arbitrary: n acc)
  case Nil
  then show ?case by simp
next
  case (Cons p ps)
  obtain m where n: "n = Suc m" using Cons.prems(6) by (cases n) auto
  obtain k v where p: "p = (k, v)" by (cases p)
  have rb: "reads_back v" using Cons.prems(1)[of p] p by simp
  have pv: "plain v" using Cons.prems(3) p by simp
  have fresh: "k \<notin> fst ` set acc" "array_index k = None" using Cons.prems(4,5) p by auto
  have put: "put_property k (sanitize v) acc = acc @ [(k, sanitize v)]"
    using fresh by (rule put_property_fresh)
  have hv: "\<exists>c t. JSON_stringify v = c # t \<and> value_start c" using pv by (rule stringify_head)
  have mt: "member_text p = QuoteJSONString k @ [58] @ JSON_stringify v" by (simp add: member_text_def p)
  show ?case
  proof (cases ps)
    case Nil
    have f: "2 * length (JSON_stringify v @ 125 # rest) < m" using Cons.prems(6) n Nil by (simp add: mt)
    have pvl: "parse_value m (JSON_stringify v @ 125 # rest) = Inr (sanitize v, 125 # rest)"
      using reads_backD[OF rb pv delimited_simps(3) f] .
    have e: "join_with [44] (map member_text (p # ps)) @ 125 # rest =
        QuoteJSONString k @ [58] @ JSON_stringify v @ 125 # rest" by (simp add: Nil mt)
    show ?thesis unfolding n e using members_step[OF pvl hv delimited_simps(3), of acc k] Nil
      by (simp add: put p)
  next
    case (Cons q qs)
    define T where "T = join_with [44] (map member_text ps) @ 125 # rest"
    have e: "join_with [44] (map member_text (p # ps)) @ 125 # rest =
        QuoteJSONString k @ [58] @ JSON_stringify v @ 44 # T"
      by (simp add: Cons T_def mt)
    have f: "2 * length (JSON_stringify v @ 44 # T) < m"
      using Cons.prems(6) unfolding e n by (simp add: QuoteJSONString_def)
    have pvl: "parse_value m (JSON_stringify v @ 44 # T) = Inr (sanitize v, 44 # T)"
      using reads_backD[OF rb pv delimited_simps(2) f] .
    have "\<exists>c t. hd (map member_text ps) = c # t \<and> value_start c"
      using Cons by (simp add: member_text_def QuoteJSONString_def value_start_def)
    then obtain c t where h: "T = c # t" "value_start c"
      using join_head[of "map member_text ps" "[44]" "125 # rest"] Cons by (auto simp: T_def)
    have sk: "skip_ws T = T" using h by (simp add: skip_ws_start)
    have f2: "2 * length T + 1 < m" using f by simp
    have d2: "distinct (map fst (acc @ [(k, sanitize v)]) @ map fst ps)"
      using Cons.prems(4) p by auto
    have ih: "parse_members m (acc @ [(k, sanitize v)]) T =
        Inr (JObj ((acc @ [(k, sanitize v)]) @ map (\<lambda>p. (fst p, sanitize (snd p))) ps), rest)"
      unfolding T_def using Cons.prems Cons f2 d2
      by (intro Cons.IH) (simp_all add: T_def)
    show ?thesis unfolding n e using members_step[OF pvl hv delimited_simps(2), of acc k] ih
      by (simp add: sk put p)
  qed
qed

lemma reads_back_all: "reads_back v"
proof (induction v)
  case JNull
  show ?case unfolding reads_back_def
  proof (intro allI impI)
    fix f rest assume "2 * length (JSON_stringify JNull @ rest) < f"
    then obtain n where "f = Suc n" by (cases f) auto
    then show "parse_value f (JSON_stringify JNull @ rest) = Inr (sanitize JNull, rest)"
      by (simp add: js_def starts_with_def is_digit_def)
  qed
next
  case (JBool b)
  show ?case unfolding reads_back_def
  proof (intro allI impI)
    fix f rest assume "2 * length (JSON_stringify (JBool b) @ rest) < f"
    then obtain n where "f = Suc n" by (cases f) auto
    then show "parse_value f (JSON_stringify (JBool b) @ rest) = Inr (sanitize (JBool b), rest)"
      by (cases b) (simp_all add: js_def starts_with_def is_digit_def)
  qed
next
  case (JNum x)
  show ?case unfolding reads_back_def
  proof (intro allI impI)
    fix f rest
    assume p: "plain (JNum x)" and r: "delimited rest"
      and "2 * length (JSON_stringify (JNum x) @ rest) < f"
    then obtain n where f: "f = Suc n" by (cases f) auto
    show "parse_value f (JSON_stringify (JNum x) @ rest) = Inr (sanitize (JNum x), rest)"
    proof (cases x)
      case (Fin q)
      then have d: "is_double q" using p by simp
      from Number_toString_head[OF d] obtain c t where
        h: "Number_toString (Fin q) = c # t" "c = 45 \<or> is_digit c" by blast
      have c: "c \<noteq> 123" "c \<noteq> 91" "c \<noteq> 34" using h(2) by (auto simp: is_digit_def)
      have pn: "parse_number (c # t @ rest) = Some (Fin q, rest)"
        using parse_Number_toString[OF d r] unfolding h(1) by simp
      show ?thesis unfolding f using c h(2) pn
        by (simp add: Fin h(1) del: Number_toString.simps)
    qed (simp_all add: f js_def starts_with_def is_digit_def)
  qed
next
  case (JStr s)
  show ?case unfolding reads_back_def
  proof (intro allI impI)
    fix f rest assume "2 * length (JSON_stringify (JStr s) @ rest) < f"
    then obtain n where "f = Suc n" by (cases f) auto
    then show "parse_value f (JSON_stringify (JStr s) @ rest) = Inr (sanitize (JStr s), rest)"
      by (simp add: QuoteJSONString_def parse_string_quoted)
  qed
next
  case (JArr vs)
  show ?case unfolding reads_back_def
  proof (intro allI impI)
    fix f rest
    assume p: "plain (JArr vs)" and r: "delimited rest"
      and fu: "2 * length (JSON_stringify (JArr vs) @ rest) < f"
    then obtain n where f: "f = Suc n" by (cases f) auto
    show "parse_value f (JSON_stringify (JArr vs) @ rest) = Inr (sanitize (JArr vs), rest)"
    proof (cases "vs = []")
      case True
      have "skip_ws (93 # rest) = 93 # rest" by (rule skip_ws_delimited) (simp add: delimited_def)
      then show ?thesis by (simp add: True f)
    next
      case False
      define T where "T = join_with [44] (map JSON_stringify vs) @ 93 # rest"
      have e: "JSON_stringify (JArr vs) @ rest = 91 # T" by (simp add: T_def)
      obtain w ws where vs: "vs = w # ws" using False by (cases vs) auto
      have "plain w" using p vs by simp
      from stringify_head[OF this] have "\<exists>c t. hd (map JSON_stringify vs) = c # t \<and> value_start c"
        using vs by simp
      then obtain c t where h: "T = c # t" "value_start c"
        using join_head[of "map JSON_stringify vs" "[44]" "93 # rest"] False by (auto simp: T_def)
      have f2: "2 * length T + 1 < n" using fu unfolding e f by simp
      have "parse_elements n [] T = Inr (JArr ([] @ map sanitize vs), rest)"
        unfolding T_def using JArr False p f2
        by (intro parse_elements_join) (simp_all add: T_def)
      then show ?thesis unfolding e f h(1) using value_array[OF h(2), of n t] by simp
    qed
  qed
next
  case (JObj ps)
  show ?case unfolding reads_back_def
  proof (intro allI impI)
    fix f rest
    assume p: "plain (JObj ps)" and r: "delimited rest"
      and fu: "2 * length (JSON_stringify (JObj ps) @ rest) < f"
    then obtain n where f: "f = Suc n" by (cases f) auto
    show "parse_value f (JSON_stringify (JObj ps) @ rest) = Inr (sanitize (JObj ps), rest)"
    proof (cases "ps = []")
      case True
      have "skip_ws (125 # rest) = 125 # rest" by (rule skip_ws_delimited) (simp add: delimited_def)
      then show ?thesis by (simp add: True f)
    next
      case False
      define T where "T = join_with [44] (map member_text ps) @ 125 # rest"
      have e: "JSON_stringify (JObj ps) @ rest = 123 # T"
        by (simp add: stringify_obj T_def del: JSON_stringify.simps)
      have "\<exists>c t. hd (map member_text ps) = c # t \<and> c = 34"
        using False by (cases ps) (simp_all add: member_text_def QuoteJSONString_def)
      then obtain t where h: "T = 34 # t"
        using False by (cases ps; cases "tl ps") (auto simp: T_def member_text_def QuoteJSONString_def)
      have f2: "2 * length T + 1 < n" using fu unfolding e f by simp
      have rb: "\<And>q. q \<in> set ps \<Longrightarrow> reads_back (snd q)"
      proof -
        fix q assume q: "q \<in> set ps"
        have "snd q \<in> Basic_BNFs.snds q" by (cases q) (simp add: snds.simps)
        then show "reads_back (snd q)" using JObj q by blast
      qed
      have "parse_members n [] T = Inr (JObj ([] @ map (\<lambda>p. (fst p, sanitize (snd p))) ps), rest)"
        unfolding T_def using rb False p f2
        by (intro parse_members_join) (simp_all add: T_def)
      then show ?thesis unfolding e f h using value_object[of n t] by (simp add: h[symmetric])
    qed
  qed
qed

lemma JSON_parse_stringify:
  assumes "plain v"
  shows "JSON_parse (JSON_stringify v) = Inr (sanitize v)"
proof -
  from stringify_head[OF assms] obtain c t where h: "JSON_stringify v = c # t" "value_start c" by blast
  have sk: "skip_ws (JSON_stringify v) = JSON_stringify v" using h by (simp add: skip_ws_start)
  have "parse_value (2 * length (JSON_stringify v) + 1) (JSON_stringify v @ []) = Inr (sanitize v, [])"
    using reads_back_all[of v] assms by (intro reads_backD) (simp_all add: delimited_def)
  then have pv: "parse_value (2 * length (JSON_stringify v) + 1) (skip_ws (JSON_stringify v)) =
      Inr (sanitize v, [])" by (simp only: sk append_Nil2)
  have s0: "skip_ws [] = []" by (simp add: skip_ws_def)
  show ?thesis unfolding JSON_parse_def pv by (simp add: s0)
qed

section \<open>The cart saved and loaded\<close>

lemma finite_js_number: "finite_number x \<Longrightarrow> js_number x"
  by (cases x) (simp_all add: finite_number_def js_number_def)

lemma key_not_index:
  "array_index (js ''id'') = None" "array_index (js ''name'') = None"
  "array_index (js ''price'') = None" "array_index (js ''image'') = None"
  "array_index (js ''quantity'') = None"
  by (simp_all add: array_index_def js_def is_digit_def)

lemma plain_item:
  assumes "js_number (item_price it)" "js_number (item_quantity it)"
  shows "plain (item_value it)"
proof -
  have a: "plain (JNum (item_price it))" using assms(1) by (simp add: js_number_def)
  have b: "plain (JNum (item_quantity it))" using assms(2) by (simp add: js_number_def)
  have d: "distinct [js ''id'', js ''name'', js ''price'', js ''image'', js ''quantity'']"
    by (simp add: js_def)
  show ?thesis using a b d by (simp add: item_value_def key_not_index del: plain.simps(1))
qed

lemma plain_cart:
  assumes "\<forall>it \<in> set c. js_number (item_price it) \<and> js_number (item_quantity it)"
  shows "plain (cart_value c)"
  using assms by (simp add: cart_value_def list_all_iff plain_item)

lemma sanitize_item: "model_item it \<Longrightarrow> sanitize (item_value it) = item_value it"
  by (cases "item_price it"; cases "item_quantity it")
     (simp_all add: model_item_def finite_number_def item_value_def)

lemma sanitize_cart: "\<forall>it \<in> set c. model_item it \<Longrightarrow> sanitize (cart_value c) = cart_value c"
  by (simp add: cart_value_def sanitize_item map_idI)

lemma load_saved:
  assumes "\<forall>it \<in> set (cart s). js_number (item_price it) \<and> js_number (item_quantity it)"
  shows "load (stored (saveCart s)) = Inr (sanitize (cart_value (cart s)))"
proof -
  have "JSON_parse (JSON_stringify (cart_value (cart s))) = Inr (sanitize (cart_value (cart s)))"
    using plain_cart[OF assms] by (rule JSON_parse_stringify)
  then show ?thesis by (simp add: load_def saveCart_def cart_value_def)
qed

lemma item_value_inject: "item_value a = item_value b \<Longrightarrow> a = b"
  by (cases a; cases b) (simp add: item_value_def)

lemma cart_value_inject: "cart_value a = cart_value b \<Longrightarrow> a = b"
proof -
  assume "cart_value a = cart_value b"
  then have "map item_value a = map item_value b" by (simp add: cart_value_def)
  moreover have "inj item_value" by (rule injI) (rule item_value_inject)
  ultimately show ?thesis by (simp add: inj_map_eq_map)
qed

text \<open>
  Claim C7. For every cart of the data model (prices and quantities are finite numbers),
  \<open>saveCart\<close> followed by the hydration yields the value of the same cart, and of no
  other: every item comes back with its id, name, price, image and quantity.
\<close>

theorem save_load_roundtrip:
  assumes "\<forall>it \<in> set (cart s). model_item it"
  shows "load (stored (saveCart s)) = Inr (cart_value (cart s)) \<and>
         (\<forall>c. Inr (cart_value c) = load (stored (saveCart s)) \<longrightarrow> c = cart s)"
proof -
  have n: "\<forall>it \<in> set (cart s). js_number (item_price it) \<and> js_number (item_quantity it)"
    using assms by (simp add: model_item_def finite_js_number)
  have l: "load (stored (saveCart s)) = Inr (cart_value (cart s))"
    using load_saved[OF n] sanitize_cart[OF assms] by simp
  show ?thesis using l cart_value_inject by auto
qed

lemma finite_number_int: "finite_number (Fin 3)" "finite_number (Fin 1)"
  using to_number_int[of 3] to_number_int[of 1] by (simp_all add: finite_number_def is_double_def)

theorem save_load_roundtrip_witness:
  "list_all model_item (cart \<lparr>cart = [\<lparr>item_id = js ''X'', item_name = js ''tea'', item_price = Fin 3,
        item_image = js ''t.png'', item_quantity = Fin 1\<rparr>], stored = None\<rparr>) \<and>
   load (stored (saveCart \<lparr>cart = [\<lparr>item_id = js ''X'', item_name = js ''tea'', item_price = Fin 3,
        item_image = js ''t.png'', item_quantity = Fin 1\<rparr>], stored = None\<rparr>)) =
     Inr (cart_value [\<lparr>item_id = js ''X'', item_name = js ''tea'', item_price = Fin 3,
        item_image = js ''t.png'', item_quantity = Fin 1\<rparr>])"
  using save_load_roundtrip[of "\<lparr>cart = [\<lparr>item_id = js ''X'', item_name = js ''tea'', item_price = Fin 3,
        item_image = js ''t.png'', item_quantity = Fin 1\<rparr>], stored = None\<rparr>"]
  by (simp add: model_item_def finite_number_int)

text \<open>
  Claim C2, as stated, fails for an unparseable stored value: on the text \<open>{\<close>
  \<open>JSON.parse\<close> throws a \<open>SyntaxError\<close>, which the hydration does not catch, so no
  empty cart is returned.
\<close>

theorem load_unparseable:
  "load (Some (js ''{'')) = Inl SyntaxError"
  by (simp add: load_def JSON_parse_def js_def skip_ws_def is_json_ws_def eval_nat_numeral)

lemma load_absent: "load None = Inr (JArr [])"
proof -
  have "JSON_parse (JSON_stringify JNull) = Inr (sanitize JNull)" by (rule JSON_parse_stringify) simp
  then show ?thesis by (simp add: load_def)
qed

text \<open>
  Claim C2, amended. The hydration returns an empty cart, without raising, when nothing is
  stored, and returns the previously saved cart when \<open>saveCart\<close> stored one; when
  \<open>JSON.parse\<close> rejects the stored text, its error is the outcome of the hydration.
\<close>

theorem load_saved_or_absent:
  "load None = Inr (JArr []) \<and>
   ((\<forall>it \<in> set (cart s). model_item it) \<longrightarrow> load (stored (saveCart s)) = Inr (cart_value (cart s))) \<and>
   (JSON_parse t = Inl e \<longrightarrow> load (Some t) = Inl e)"
proof (intro conjI impI)
  show "load None = Inr (JArr [])" by (rule load_absent)
next
  assume a: "\<forall>it \<in> set (cart s). model_item it"
  have n: "\<forall>it \<in> set (cart s). js_number (item_price it) \<and> js_number (item_quantity it)"
    using a by (simp add: model_item_def finite_js_number)
  show "load (stored (saveCart s)) = Inr (cart_value (cart s))"
    using load_saved[OF n] sanitize_cart[OF a] by simp
next
  assume "JSON_parse t = Inl e"
  then show "load (Some t) = Inl e" by (simp add: load_def)
qed

theorem load_saved_or_absent_witness:
  "list_all model_item (cart \<lparr>cart = [\<lparr>item_id = js ''X'', item_name = js ''tea'', item_price = Fin 3,
        item_image = js ''t.png'', item_quantity = Fin 1\<rparr>], stored = None\<rparr>) \<and>
   load (stored (saveCart \<lparr>cart = [\<lparr>item_id = js ''X'', item_name = js ''tea'', item_price = Fin 3,
        item_image = js ''t.png'', item_quantity = Fin 1\<rparr>], stored = None\<rparr>)) =
     Inr (cart_value [\<lparr>item_id = js ''X'', item_name = js ''tea'', item_price = Fin 3,
        item_image = js ''t.png'', item_quantity = Fin 1\<rparr>]) \<and>
   JSON_parse (js ''{'') = Inl SyntaxError \<and> load (Some (js ''{'')) = Inl SyntaxError"
proof -
  have p: "JSON_parse (js ''{'') = Inl SyntaxError"
    by (simp add: JSON_parse_def js_def skip_ws_def is_json_ws_def eval_nat_numeral)
  show ?thesis
    using load_saved_or_absent[of "\<lparr>cart = [\<lparr>item_id = js ''X'', item_name = js ''tea'', item_price = Fin 3,
        item_image = js ''t.png'', item_quantity = Fin 1\<rparr>], stored = None\<rparr>" "js ''{''" SyntaxError] p
    by (simp add: model_item_def finite_number_int)
qed

text \<open>
  Outside the data model: a price that is not a number (the price text \<open>abc\<close> parses to
  \<open>NaN\<close>) is written as \<open>null\<close> and comes back as \<open>null\<close>.
\<close>

lemma load_saved_nan_price:
  "load (stored (addToCart (js ''X'') (js ''tea'') (js ''abc'') (js ''t.png'') \<lparr>cart = [], stored = None\<rparr>)) =
     Inr (JArr [JObj [(js ''id'', JStr (js ''X'')), (js ''name'', JStr (js ''tea'')),
                      (js ''price'', JNull), (js ''image'', JStr (js ''t.png'')),
                      (js ''quantity'', JNum (Fin 1))]])"
proof -
  define it where "it = \<lparr>item_id = js ''X'', item_name = js ''tea'', item_price = NaN,
      item_image = js ''t.png'', item_quantity = Fin 1\<rparr>"
  have pf: "parseFloat (js ''abc'') = NaN"
    by (simp add: parseFloat_def js_def is_str_ws_def starts_with_def is_digit_def)
  have a: "addToCart (js ''X'') (js ''tea'') (js ''abc'') (js ''t.png'') \<lparr>cart = [], stored = None\<rparr> =
      saveCart \<lparr>cart = [it], stored = None\<rparr>"
    by (simp add: addToCart_def pf it_def)
  have n: "\<forall>i \<in> set (cart \<lparr>cart = [it], stored = None\<rparr>). js_number (item_price i) \<and> js_number (item_quantity i)"
    using finite_number_int(2) by (simp add: it_def js_number_def finite_number_def)
  show ?thesis unfolding a using load_saved[OF n]
    by (simp add: cart_value_def item_value_def it_def)
qed

end
